theory Spec2Isabelle
  imports Main "HOL-Library.Word"
begin

unbundle bit_operations_syntax

section \<open>Data model\<close>

text \<open>
  The program is a Wayland client (\<^verbatim>\<open>main.c\<close> in two revisions: the one with the
  growable fence tracker and the command line options, and an earlier, simpler one).  The
  display server, EGL, \<^verbatim>\<open>poll\<close> and the kernel's sync-file \<^verbatim>\<open>ioctl\<close> are outside the
  program: their answers are inputs of the model, and the calls the program makes on them
  are recorded in a trace.
\<close>

subsection \<open>Machine types\<close>

text \<open>
  \<^verbatim>\<open>uint64_t\<close> timestamps and \<^verbatim>\<open>uint32_t\<close> serials are words (arithmetic wraps); the
  \<^verbatim>\<open>short\<close> event masks of \<^verbatim>\<open>struct pollfd\<close> are 16-bit words.  File descriptors, window
  sizes, return values and \<^verbatim>\<open>errno\<close> are C \<^verbatim>\<open>int\<close>s on which the program does no arithmetic:
  they are \<^typ>\<open>int\<close>.  \<^verbatim>\<open>frame_num\<close> is a C \<^verbatim>\<open>int\<close> that is only incremented while it is below
  \<^verbatim>\<open>max_frames\<close>, so it never leaves the range of \<^verbatim>\<open>int\<close>; it is an \<^typ>\<open>int\<close> too.
\<close>

type_synonym u64 = "64 word"
type_synonym u32 = "32 word"
type_synonym short = "16 word"

definition POLLIN :: short where "POLLIN = 0x001"
definition POLLOUT :: short where "POLLOUT = 0x004"
definition POLLERR :: short where "POLLERR = 0x008"
definition POLLHUP :: short where "POLLHUP = 0x010"

definition EINTR :: int where "EINTR = 4"
definition EAGAIN :: int where "EAGAIN = 11"

subsection \<open>The kernel's answer to \<^verbatim>\<open>SYNC_IOC_FILE_INFO\<close>\<close>

text \<open>
  \<^verbatim>\<open>fence_timestamp\<close> asks the kernel twice.  The first query (no array attached) tells
  \<^verbatim>\<open>num_fences\<close>; the second one fills the array \<^verbatim>\<open>fences\<close> that the program has sized
  with that number and writes \<^verbatim>\<open>num_fences\<close> again.  Either query can fail (\<^verbatim>\<open>-1\<close>).
  \<open>first_query\<close> is the count of the first answer; \<open>second_query\<close> is the list of the
  \<^verbatim>\<open>timestamp_ns\<close> fields of the entries the kernel has written, whose length is the
  \<^verbatim>\<open>num_fences\<close> it reports then (the kernel refuses an array smaller than the number of
  points, which is the failing answer here).
\<close>

record sync_answer =
  first_query :: "u32 option"
  second_query :: "u64 list option"

subsection \<open>What the program does to the outside\<close>

datatype action =
    Act_perror string
  | Act_printf_frame int u64
  | Act_close int
  | Act_pong u32
  | Act_surface_frame nat
  | Act_callback_destroy nat
  | Act_window_resize int int
  | Act_ack_configure u32
  | Act_draw int int int
  | Act_create_sync
  | Act_swap_buffers
  | Act_destroy_sync
  | Act_prepare_read
  | Act_dispatch_pending
  | Act_flush
  | Act_cancel_read
  | Act_poll nat int
  | Act_read_events
  | Act_teardown

section \<open>FenceCompletion: \<^verbatim>\<open>fence_timestamp\<close>\<close>

text \<open>
  The loop \<^verbatim>\<open>for (i = 0; i < file.num_fences; ++i) if (fences[i].timestamp_ns > latest)
  latest = fences[i].timestamp_ns;\<close> with its index.
\<close>

function latest_scan :: "u64 list \<Rightarrow> nat \<Rightarrow> nat \<Rightarrow> u64 \<Rightarrow> u64" where
  "latest_scan fences num_fences i latest =
     (if i < num_fences
      then latest_scan fences num_fences (Suc i)
             (if fences ! i > latest then fences ! i else latest)
      else latest)"
  by pat_completeness auto
termination
  by (relation "measure (\<lambda>(fences, num_fences, i, latest). num_fences - i)") auto

declare latest_scan.simps [simp del]

text \<open>
  \<^verbatim>\<open>fence_timestamp\<close> of the tracker revision.  The result is the returned timestamp and
  what was written to \<^verbatim>\<open>stderr\<close>.
\<close>

definition fence_timestamp :: "sync_answer \<Rightarrow> u64 \<times> action list" where
  "fence_timestamp k =
     (case first_query k of
        None \<Rightarrow> (0, [Act_perror ''SYNC_IOC_FILE_INFO''])
      | Some n \<Rightarrow>
          (case second_query k of
             None \<Rightarrow> (0, [Act_perror ''SYNC_IOC_FILE_INFO''])
           | Some fences \<Rightarrow> (latest_scan fences (length fences) 0 0, [])))"

text \<open>\<^verbatim>\<open>fence_timestamp\<close> of the simpler revision (\<^verbatim>\<open>src/main.c\<close>).\<close>

definition fence_timestamp_simple :: "sync_answer \<Rightarrow> u64 \<times> action list" where
  "fence_timestamp_simple k =
     (case first_query k of
        None \<Rightarrow> (0, [Act_perror ''SYNC_IOC_FILE_INFO''])
      | Some n \<Rightarrow>
          (case second_query k of
             None \<Rightarrow> (0, [Act_perror ''SYNC_IOC_FILE_INFO''])
           | Some fences \<Rightarrow> (latest_scan fences (length fences) 0 0, [])))"

section \<open>FenceTracker\<close>

subsection \<open>The two parallel arrays\<close>

record pollfd =
  fd :: int
  events :: short
  revents :: short

text \<open>The anonymous \<^verbatim>\<open>struct { int frame_num; uint64_t start_ns; }\<close> of \<^verbatim>\<open>fences\<close>.\<close>

record fence_info =
  fence_frame_num :: int
  fence_start_ns :: u64

text \<open>
  The locals \<^verbatim>\<open>fds\<close>, \<^verbatim>\<open>fences\<close>, \<^verbatim>\<open>len\<close> and \<^verbatim>\<open>cap\<close> of \<^verbatim>\<open>main\<close>.  The two lists are the
  allocated arrays, with all their \<^verbatim>\<open>cap\<close> cells; only the first \<^verbatim>\<open>len\<close> cells are in use.
  \<^verbatim>\<open>len\<close> and \<^verbatim>\<open>cap\<close> are \<^verbatim>\<open>size_t\<close>: natural numbers below \<open>2 ^ 64\<close>, and arithmetic on
  them is taken modulo \<open>2 ^ 64\<close>.
\<close>

record tracker =
  fds :: "pollfd list"
  fences :: "fence_info list"
  len :: nat
  cap :: nat

definition size_t :: "nat \<Rightarrow> nat" where
  "size_t n = n mod 2 ^ 64"

definition sizeof_pollfd :: nat where "sizeof_pollfd = 8"
definition sizeof_fence_info :: nat where "sizeof_fence_info = 16"

text \<open>
  A tracker as the program keeps it: both arrays have \<^verbatim>\<open>cap\<close> cells, cell 0 is in use (it
  is the display connection), the cells in use fit the arrays, and the arrays can be
  doubled without their size in bytes leaving \<^verbatim>\<open>size_t\<close>.  All array accesses of \<^verbatim>\<open>track\<close>
  and of the reap loop are in range for such a tracker.
\<close>

definition tracker_ok :: "tracker \<Rightarrow> bool" where
  "tracker_ok t \<longleftrightarrow>
     length (fds t) = cap t \<and> length (fences t) = cap t \<and>
     1 \<le> len t \<and> len t \<le> cap t \<and> cap t < 2 ^ 59"

subsection \<open>\<^verbatim>\<open>track\<close>: appending a fence, growing the arrays\<close>

text \<open>
  \<^verbatim>\<open>realloc(p, bytes)\<close> on an array of cells of \<open>cell\<close> bytes: it fails when the allocator
  says so, and otherwise gives an array of \<open>bytes div cell\<close> cells that starts with the old
  content; the new cells hold whatever the allocator left there (\<open>junk\<close>).
\<close>

definition realloc :: "bool \<Rightarrow> 'a \<Rightarrow> nat \<Rightarrow> 'a list \<Rightarrow> nat \<Rightarrow> 'a list option" where
  "realloc ok junk cell xs bytes =
     (if ok
      then Some (take (bytes div cell) xs @ replicate (bytes div cell - length xs) junk)
      else None)"

text \<open>What the allocator and EGL answer during one \<^verbatim>\<open>track\<close>.\<close>

record track_env =
  realloc_fds_ok :: bool
  realloc_fences_ok :: bool
  junk_pollfd :: pollfd
  junk_fence :: fence_info
  dup_fence_fd :: int

datatype fault = Exit_failure int | Null_deref

text \<open>
  The block \<^verbatim>\<open>if (len == cap) { cap *= 2; fds = realloc(...); fences = realloc(...);
  if (!fds || !fences) return 1; }\<close>.
\<close>

definition grow :: "track_env \<Rightarrow> tracker \<Rightarrow> fault + tracker" where
  "grow env t =
     (if len t = cap t
      then
        (let cap' = size_t (cap t * 2);
             fds' = realloc (realloc_fds_ok env) (junk_pollfd env) sizeof_pollfd
                      (fds t) (size_t (sizeof_pollfd * cap'));
             fences' = realloc (realloc_fences_ok env) (junk_fence env) sizeof_fence_info
                      (fences t) (size_t (sizeof_fence_info * cap'))
         in case (fds', fences') of
              (Some fs, Some ms) \<Rightarrow> Inr (t\<lparr>fds := fs, fences := ms, cap := cap'\<rparr>)
            | _ \<Rightarrow> Inl (Exit_failure 1))
      else Inr t)"

text \<open>
  The stores \<^verbatim>\<open>fds[len].fd = egl_dup_fence(...); fds[len].events = POLLIN;
  fences[len].frame_num = frame_num; fences[len].start_ns = start_ns; ++len;\<close>
  (\<^verbatim>\<open>revents\<close> of the cell is left as it is).
\<close>

definition store_fence :: "track_env \<Rightarrow> int \<Rightarrow> u64 \<Rightarrow> tracker \<Rightarrow> tracker" where
  "store_fence env frame_id submit_time t =
     t\<lparr>fds := (fds t)[len t := (fds t ! len t)\<lparr>fd := dup_fence_fd env, events := POLLIN\<rparr>],
       fences := (fences t)[len t :=
                   \<lparr>fence_frame_num = frame_id, fence_start_ns = submit_time\<rparr>],
       len := size_t (len t + 1)\<rparr>"

definition track :: "track_env \<Rightarrow> int \<Rightarrow> u64 \<Rightarrow> tracker \<Rightarrow> fault + tracker" where
  "track env frame_id submit_time t =
     (case grow env t of
        Inl f \<Rightarrow> Inl f
      | Inr t' \<Rightarrow> Inr (store_fence env frame_id submit_time t'))"

text \<open>Several \<^verbatim>\<open>track\<close> calls in a row, as successive iterations of the main loop make them.\<close>

fun track_all :: "(track_env \<times> int \<times> u64) list \<Rightarrow> tracker \<Rightarrow> fault + tracker" where
  "track_all [] t = Inr t"
| "track_all ((env, frame_id, submit_time) # rest) t =
     (case track env frame_id submit_time t of
        Inl f \<Rightarrow> Inl f
      | Inr t' \<Rightarrow> track_all rest t')"

subsection \<open>The reap loop\<close>

text \<open>
  The inner loop \<^verbatim>\<open>for (j = i; j < len - 1; ++j) { fds[j] = fds[j + 1];
  fences[j] = fences[j + 1]; }\<close>.  It runs with \<^verbatim>\<open>i < len\<close>, so \<^verbatim>\<open>len - 1\<close> does not wrap.
\<close>

function shift_down :: "nat \<Rightarrow> tracker \<Rightarrow> tracker" where
  "shift_down j t =
     (if j < len t - 1
      then shift_down (Suc j)
             (t\<lparr>fds := (fds t)[j := fds t ! (j + 1)],
                fences := (fences t)[j := fences t ! (j + 1)]\<rparr>)
      else t)"
  by pat_completeness auto
termination
  by (relation "measure (\<lambda>(j, t). len t - 1 - j)") auto

declare shift_down.simps [simp del]

text \<open>
  The loop \<^verbatim>\<open>for (i = 1; i < len;)\<close> over the fences flagged \<^verbatim>\<open>POLLIN\<close>.  \<open>sync_files\<close> gives the
  sync-file answers for each descriptor; \<open>out\<close> collects what the loop does to the outside:
  the log of \<^verbatim>\<open>fence_timestamp\<close>, \<^verbatim>\<open>close\<close>, and the line \<^verbatim>\<open>printf("Frame %d: %f ms\n", ...)\<close>,
  recorded with the frame number and the \<^verbatim>\<open>uint64_t\<close> difference \<^verbatim>\<open>end_ns - start_ns\<close> that
  is printed (scaled to milliseconds).
\<close>

function reap :: "(int \<Rightarrow> sync_answer) \<Rightarrow> nat \<Rightarrow> tracker \<Rightarrow> action list
                    \<Rightarrow> tracker \<times> action list" where
  "reap sync_files i t out =
     (if i < len t
      then
        (if revents (fds t ! i) AND POLLIN = 0
         then reap sync_files (Suc i) t out
         else
           (let (end_ns, log) = fence_timestamp (sync_files (fd (fds t ! i)));
                out' = out @ log @
                       [Act_close (fd (fds t ! i)),
                        Act_printf_frame (fence_frame_num (fences t ! i))
                          (end_ns - fence_start_ns (fences t ! i))];
                t' = shift_down i t
            in reap sync_files i (t'\<lparr>len := len t' - 1\<rparr>) out'))
      else (t, out))"
  by pat_completeness auto

termination
proof (relation "measure (\<lambda>(sync_files, i, t, out). len t - i)")
  have len_shift: "len (shift_down j t) = len t" for j t
    by (induction j t rule: shift_down.induct) (subst shift_down.simps, simp)
  fix sync_files :: "int \<Rightarrow> sync_answer" and i t and out :: "action list"
    and x :: "u64 \<times> action list" and end_ns :: u64 and log xa xb
  assume "i < len t" and "xb = shift_down i t"
  then show "((sync_files, i, xb\<lparr>len := len xb - 1\<rparr>, xa), (sync_files, i, t, out))
             \<in> measure (\<lambda>(sync_files, i, t, out). len t - i)"
    by (simp add: len_shift)
qed auto

declare reap.simps [simp del]

section \<open>Connection state and protocol events\<close>

text \<open>
  \<^verbatim>\<open>struct wl_state\<close> without the two globals bound at startup.  \<^verbatim>\<open>frame\<close> is the pointer to
  the outstanding \<^verbatim>\<open>wl_callback\<close>: \<open>None\<close> is \<^verbatim>\<open>NULL\<close>, and a callback object is named by a
  number.
\<close>

record wl_state =
  close :: bool
  serial :: u32
  width :: int
  height :: int
  frame :: "nat option"

text \<open>The command line options and the capability found at startup.\<close>

record config =
  fixed_size :: bool
  fixed_width :: int
  fixed_height :: int
  max_frames :: int
  unsynchronized :: bool
  egl_has_fences :: bool

text \<open>
  The state of the main loop: \<^verbatim>\<open>wl_state\<close>, the tracker, \<^verbatim>\<open>frame_num\<close>, and, of the
  connection, the \<^verbatim>\<open>wl_callback\<close> objects that exist (created by \<^verbatim>\<open>wl_surface_frame\<close> and not
  yet destroyed) and the number the next one gets.  \<open>trace\<close> is what the program has done
  to the outside so far.
\<close>

record loop_state =
  wl :: wl_state
  callbacks :: "nat list"
  next_callback :: nat
  trk :: tracker
  frame_num :: int
  trace :: "action list"

definition emit :: "action list \<Rightarrow> loop_state \<Rightarrow> loop_state" where
  "emit acts st = st\<lparr>trace := trace st @ acts\<rparr>"

text \<open>The events the server can send to the objects the program listens on.\<close>

datatype wl_event =
    Ev_ping u32
  | Ev_configure u32
  | Ev_toplevel_configure int int
  | Ev_toplevel_close
  | Ev_frame_done nat

definition xdg_base_configure :: "u32 \<Rightarrow> wl_state \<Rightarrow> wl_state" where
  "xdg_base_configure s w = w\<lparr>serial := s\<rparr>"

definition toplevel_configure :: "int \<Rightarrow> int \<Rightarrow> wl_state \<Rightarrow> wl_state" where
  "toplevel_configure w' h' w = w\<lparr>width := w', height := h'\<rparr>"

definition toplevel_close :: "wl_state \<Rightarrow> wl_state" where
  "toplevel_close w = w\<lparr>close := True\<rparr>"

text \<open>
  \<^verbatim>\<open>frame_done\<close> destroys the callback stored in \<^verbatim>\<open>wl_state->frame\<close> and clears the slot.
  Destroying \<^verbatim>\<open>NULL\<close> dereferences it.
\<close>

definition frame_done :: "loop_state \<Rightarrow> fault + loop_state" where
  "frame_done st =
     (case frame (wl st) of
        None \<Rightarrow> Inl Null_deref
      | Some f \<Rightarrow>
          Inr (emit [Act_callback_destroy f]
                 (st\<lparr>callbacks := removeAll f (callbacks st),
                     wl := (wl st)\<lparr>frame := None\<rparr>\<rparr>)))"

text \<open>
  One event reaches the listener of its object; the connection drops an event for a
  callback that no longer exists.
\<close>

definition dispatch_event :: "wl_event \<Rightarrow> loop_state \<Rightarrow> fault + loop_state" where
  "dispatch_event ev st =
     (case ev of
        Ev_ping s \<Rightarrow> Inr (emit [Act_pong s] st)
      | Ev_configure s \<Rightarrow> Inr (st\<lparr>wl := xdg_base_configure s (wl st)\<rparr>)
      | Ev_toplevel_configure w' h' \<Rightarrow> Inr (st\<lparr>wl := toplevel_configure w' h' (wl st)\<rparr>)
      | Ev_toplevel_close \<Rightarrow> Inr (st\<lparr>wl := toplevel_close (wl st)\<rparr>)
      | Ev_frame_done cb \<Rightarrow> if cb \<in> set (callbacks st) then frame_done st else Inr st)"

fun dispatch_events :: "wl_event list \<Rightarrow> loop_state \<Rightarrow> fault + loop_state" where
  "dispatch_events [] st = Inr st"
| "dispatch_events (ev # evs) st =
     (case dispatch_event ev st of
        Inl f \<Rightarrow> Inl f
      | Inr st' \<Rightarrow> dispatch_events evs st')"

text \<open>\<^verbatim>\<open>wl_display_dispatch_pending\<close>, with the events that are queued when it is called.\<close>

definition dispatch_pending :: "wl_event list \<Rightarrow> loop_state \<Rightarrow> fault + loop_state" where
  "dispatch_pending evs st = dispatch_events evs (emit [Act_dispatch_pending] st)"

section \<open>FrameScheduler and RenderSubmitter: the render block\<close>

text \<open>
  The block \<^verbatim>\<open>if (wl_state.serial) { ... }\<close> under \<^verbatim>\<open>/* Resize window */\<close>.
\<close>

definition resize_window :: "config \<Rightarrow> loop_state \<Rightarrow> loop_state" where
  "resize_window cfg st =
     (if serial (wl st) \<noteq> 0
      then
        (let w1 = (if fixed_size cfg
                   then (wl st)\<lparr>width := fixed_width cfg, height := fixed_height cfg\<rparr>
                   else wl st);
             w2 = (if width w1 = 0 then w1\<lparr>width := 500\<rparr> else w1);
             w3 = (if height w2 = 0 then w2\<lparr>height := 500\<rparr> else w2)
         in emit [Act_window_resize (width w3) (height w3), Act_ack_configure (serial w3)]
              (st\<lparr>wl := w3\<lparr>serial := 0\<rparr>\<rparr>))
      else st)"

text \<open>
  What the outside answers during one iteration of the main loop:
  the allocator and EGL for \<^verbatim>\<open>track\<close>; the clock (\<^verbatim>\<open>tv_sec\<close>, \<^verbatim>\<open>tv_nsec\<close>); for the \<open>k\<close>-th call
  of \<^verbatim>\<open>wl_display_prepare_read\<close> its return value and \<^verbatim>\<open>errno\<close> after it, and the events
  queued at the \<^verbatim>\<open>wl_display_dispatch_pending\<close> that follows; for the \<open>k\<close>-th call of
  \<^verbatim>\<open>wl_display_flush\<close> its return value and \<^verbatim>\<open>errno\<close> after it; the return value of \<^verbatim>\<open>poll\<close>,
  \<^verbatim>\<open>errno\<close> after it and the \<^verbatim>\<open>revents\<close> it writes; the events dispatched after
  \<^verbatim>\<open>wl_display_read_events\<close>; and the kernel's sync-file answers.
\<close>

record iter_env =
  track_answers :: track_env
  clock_sec :: int
  clock_nsec :: int
  prepare_read_answers :: "nat \<Rightarrow> int \<times> int"
  pending_events :: "nat \<Rightarrow> wl_event list"
  flush_answers :: "nat \<Rightarrow> int \<times> int"
  poll_ret :: int
  poll_errno :: int
  poll_revents :: "nat \<Rightarrow> short"
  read_events :: "wl_event list"
  sync_kernel :: "int \<Rightarrow> sync_answer"

text \<open>\<^verbatim>\<open>start_ns = ts.tv_sec * UINT64_C(1000000000) + ts.tv_nsec\<close>, in \<^verbatim>\<open>uint64_t\<close>.\<close>

definition clock_ns :: "iter_env \<Rightarrow> u64" where
  "clock_ns env = word_of_int (clock_sec env) * 1000000000 + word_of_int (clock_nsec env)"

text \<open>
  The body of \<^verbatim>\<open>if (unsynchronized || !wl_state.frame) { ... }\<close>: the callback request (in
  synchronized mode), the resize block, the draw calls, the fence and its time stamp, the
  swap, \<^verbatim>\<open>track\<close>, and \<^verbatim>\<open>++frame_num\<close>.
\<close>

definition submit :: "config \<Rightarrow> iter_env \<Rightarrow> loop_state \<Rightarrow> fault + loop_state" where
  "submit cfg env st =
     (let st1 = (if \<not> unsynchronized cfg
                 then emit [Act_surface_frame (next_callback st)]
                        (st\<lparr>wl := (wl st)\<lparr>frame := Some (next_callback st)\<rparr>,
                            callbacks := callbacks st @ [next_callback st],
                            next_callback := Suc (next_callback st)\<rparr>)
                 else st);
          st2 = resize_window cfg st1;
          st3 = emit [Act_draw (width (wl st2)) (height (wl st2)) (frame_num st2)] st2;
          start_ns = (if egl_has_fences cfg then clock_ns env else 0);
          st4 = (if egl_has_fences cfg then emit [Act_create_sync] st3 else st3);
          st5 = emit [Act_swap_buffers] st4
      in if egl_has_fences cfg
         then
           (case track (track_answers env) (frame_num st5) start_ns (trk st5) of
              Inl f \<Rightarrow> Inl f
            | Inr t \<Rightarrow>
                Inr ((emit [Act_destroy_sync] (st5\<lparr>trk := t\<rparr>))
                       \<lparr>frame_num := frame_num st5 + 1\<rparr>))
         else Inr (st5\<lparr>frame_num := frame_num st5 + 1\<rparr>))"

text \<open>The gate \<^verbatim>\<open>if (unsynchronized || !wl_state.frame)\<close> in front of it.\<close>

definition render :: "config \<Rightarrow> iter_env \<Rightarrow> loop_state \<Rightarrow> fault + loop_state" where
  "render cfg env st =
     (if unsynchronized cfg \<or> frame (wl st) = None then submit cfg env st else Inr st)"

section \<open>EventMultiplexer: the main loop\<close>

subsection \<open>The two retry loops\<close>

text \<open>
  \<^verbatim>\<open>while (wl_display_prepare_read(wl_display) != 0 && errno == EAGAIN)
  wl_display_dispatch_pending(wl_display);\<close>.  The loop has no counter: it runs as long as
  the connection answers so, and \<open>None\<close> is the run that never leaves it.
\<close>

partial_function (option)
  prepare_read_loop :: "iter_env \<Rightarrow> nat \<Rightarrow> loop_state \<Rightarrow> (fault + loop_state) option"
where
  "prepare_read_loop env k st =
     (case prepare_read_answers env k of
        (ret, errno) \<Rightarrow>
          if ret \<noteq> 0 \<and> errno = EAGAIN
          then
            (case dispatch_pending (pending_events env k) (emit [Act_prepare_read] st) of
               Inl f \<Rightarrow> Some (Inl f)
             | Inr st' \<Rightarrow> prepare_read_loop env (Suc k) st')
          else Some (Inr (emit [Act_prepare_read] st)))"

text \<open>
  \<^verbatim>\<open>errno = 0; do { ret = wl_display_flush(wl_display); } while (ret > 0);\<close>.  The result is
  the last return value with \<^verbatim>\<open>errno\<close> after that call.
\<close>

partial_function (option)
  flush_loop :: "iter_env \<Rightarrow> nat \<Rightarrow> loop_state \<Rightarrow> ((int \<times> int) \<times> loop_state) option"
where
  "flush_loop env k st =
     (case flush_answers env k of
        (ret, errno) \<Rightarrow>
          if ret > 0
          then flush_loop env (Suc k) (emit [Act_flush] st)
          else Some ((ret, errno), emit [Act_flush] st))"

declare prepare_read_loop.simps [code]
declare flush_loop.simps [code]

subsection \<open>Waiting, dispatching, reaping\<close>

datatype flow = Continue | Break

text \<open>\<^verbatim>\<open>fds[0].events |= POLLOUT\<close> and \<^verbatim>\<open>fds[0].events &= ~POLLOUT\<close>.\<close>

definition set_events0 :: "(short \<Rightarrow> short) \<Rightarrow> loop_state \<Rightarrow> loop_state" where
  "set_events0 f st =
     st\<lparr>trk := (trk st)\<lparr>fds := (fds (trk st))[0 :=
             (fds (trk st) ! 0)\<lparr>events := f (events (fds (trk st) ! 0))\<rparr>]\<rparr>\<rparr>"

text \<open>
  \<^verbatim>\<open>poll(fds, len, timeout)\<close>: when it does not fail it has written \<^verbatim>\<open>revents\<close> of the first
  \<^verbatim>\<open>len\<close> cells; when it fails the array is as before.
\<close>

definition write_revents :: "(nat \<Rightarrow> short) \<Rightarrow> nat \<Rightarrow> pollfd list \<Rightarrow> pollfd list" where
  "write_revents answers n ps =
     map (\<lambda>i. if i < n then (ps ! i)\<lparr>revents := answers i\<rparr> else ps ! i) [0..<length ps]"

definition poll :: "config \<Rightarrow> iter_env \<Rightarrow> loop_state \<Rightarrow> loop_state" where
  "poll cfg env st =
     emit [Act_poll (len (trk st)) (if unsynchronized cfg then 0 else - 1)]
       (if poll_ret env = - 1 then st
        else st\<lparr>trk := (trk st)\<lparr>fds :=
               write_revents (poll_revents env) (len (trk st)) (fds (trk st))\<rparr>\<rparr>)"

text \<open>
  From \<^verbatim>\<open>poll\<close> to the end of the loop body: the two fatal checks, then
  \<^verbatim>\<open>wl_display_read_events\<close>, \<^verbatim>\<open>wl_display_dispatch_pending\<close> and the reap loop.
\<close>

definition wait_and_reap :: "config \<Rightarrow> iter_env \<Rightarrow> loop_state \<Rightarrow> fault + flow \<times> loop_state"
where
  "wait_and_reap cfg env st =
     (let st1 = poll cfg env st
      in if poll_ret env = - 1 \<and> poll_errno env \<noteq> EINTR
         then Inr (Break, emit [Act_perror ''poll'', Act_cancel_read] st1)
         else if revents (fds (trk st1) ! 0) AND (POLLERR OR POLLHUP) \<noteq> 0
         then Inr (Break, emit [Act_cancel_read] st1)
         else
           (case dispatch_pending (read_events env) (emit [Act_read_events] st1) of
              Inl f \<Rightarrow> Inl f
            | Inr st2 \<Rightarrow>
                (let (t, out) = reap (sync_kernel env) 1 (trk st2) []
                 in Inr (Continue, emit out (st2\<lparr>trk := t\<rparr>)))))"

text \<open>
  The \<^verbatim>\<open>if (ret == -1) { if (errno == EAGAIN) ... else { cancel; break; } } else ...\<close> after the
  flush loop, followed by the rest of the body.
\<close>

definition after_flush :: "config \<Rightarrow> iter_env \<Rightarrow> int \<times> int \<Rightarrow> loop_state
                             \<Rightarrow> fault + flow \<times> loop_state" where
  "after_flush cfg env r st =
     (case r of
        (ret, errno) \<Rightarrow>
          if ret = - 1
          then
            (if errno = EAGAIN
             then wait_and_reap cfg env (set_events0 (\<lambda>e. e OR POLLOUT) st)
             else Inr (Break, emit [Act_cancel_read] st))
          else wait_and_reap cfg env (set_events0 (\<lambda>e. e AND NOT POLLOUT) st))"

subsection \<open>One iteration, the loop, and what follows it\<close>

definition loop_body :: "config \<Rightarrow> iter_env \<Rightarrow> loop_state \<Rightarrow> (fault + flow \<times> loop_state) option"
where
  "loop_body cfg env st =
     (case render cfg env st of
        Inl f \<Rightarrow> Some (Inl f)
      | Inr st1 \<Rightarrow>
          (case prepare_read_loop env 0 st1 of
             None \<Rightarrow> None
           | Some (Inl f) \<Rightarrow> Some (Inl f)
           | Some (Inr st2) \<Rightarrow>
               (case flush_loop env 0 st2 of
                  None \<Rightarrow> None
                | Some (r, st3) \<Rightarrow> Some (after_flush cfg env r st3))))"

text \<open>
  \<^verbatim>\<open>while (!wl_state.close && frame_num < max_frames) { ... }\<close>; \<open>envs k\<close> is what the outside
  answers during iteration \<open>k\<close>.  \<open>None\<close> is the run that never leaves the loop.
\<close>

partial_function (option)
  main_loop :: "config \<Rightarrow> (nat \<Rightarrow> iter_env) \<Rightarrow> nat \<Rightarrow> loop_state \<Rightarrow> (fault + loop_state) option"
where
  "main_loop cfg envs k st =
     (if \<not> close (wl st) \<and> frame_num st < max_frames cfg
      then
        (case loop_body cfg (envs k) st of
           None \<Rightarrow> None
         | Some (Inl f) \<Rightarrow> Some (Inl f)
         | Some (Inr (Break, st')) \<Rightarrow> Some (Inr st')
         | Some (Inr (Continue, st')) \<Rightarrow> main_loop cfg envs (Suc k) st')
      else Some (Inr st))"

declare main_loop.simps [code]


text \<open>
  The state in which \<^verbatim>\<open>main\<close> enters the loop: \<^verbatim>\<open>len = 1\<close>, \<^verbatim>\<open>cap = 10\<close>, both arrays from
  \<^verbatim>\<open>calloc\<close> (\<^verbatim>\<open>return 1\<close> when one fails), \<^verbatim>\<open>fds[0]\<close> set up for the display connection,
  \<^verbatim>\<open>frame_num = 0\<close>.  \<open>w\<close> is \<^verbatim>\<open>wl_state\<close> as the start-up code has left it; no frame callback
  has been requested yet.
\<close>

definition loop_entry :: "bool \<Rightarrow> bool \<Rightarrow> int \<Rightarrow> wl_state \<Rightarrow> fault + loop_state" where
  "loop_entry fds_ok fences_ok display_fd w =
     (if \<not> fds_ok \<or> \<not> fences_ok then Inl (Exit_failure 1)
      else Inr \<lparr>wl = w\<lparr>frame := None\<rparr>, callbacks = [], next_callback = 0,
                trk = \<lparr>fds = (replicate 10 \<lparr>fd = 0, events = 0, revents = 0\<rparr>)
                               [0 := \<lparr>fd = display_fd, events = POLLIN OR POLLOUT,
                                      revents = 0\<rparr>],
                        fences = replicate 10 \<lparr>fence_frame_num = 0, fence_start_ns = 0\<rparr>,
                        len = 1, cap = 10\<rparr>,
                frame_num = 0, trace = []\<rparr>)"


definition exit_code :: "fault + loop_state \<Rightarrow> int option" where
  "exit_code r =
     (case r of
        Inl (Exit_failure c) \<Rightarrow> Some c
      | Inl Null_deref \<Rightarrow> None
      | Inr st \<Rightarrow> Some 0)"


section \<open>Vocabulary of the properties\<close>

subsection \<open>The tracker\<close>

text \<open>A cell is ready when \<^verbatim>\<open>poll\<close> has flagged it: \<^verbatim>\<open>revents & POLLIN\<close>.\<close>

definition ready :: "pollfd \<Rightarrow> bool" where
  "ready p \<longleftrightarrow> revents p AND POLLIN \<noteq> 0"

text \<open>The entries in use, position by position: descriptor and frame metadata.\<close>

definition in_use :: "tracker \<Rightarrow> (pollfd \<times> fence_info) list" where
  "in_use t = zip (take (len t) (fds t)) (take (len t) (fences t))"

text \<open>The number of ready positions other than position 0.\<close>

definition ready_count :: "tracker \<Rightarrow> nat" where
  "ready_count t = length (filter ready (drop 1 (take (len t) (fds t))))"

text \<open>What reaping one entry does to the outside.\<close>

definition reap_actions :: "(int \<Rightarrow> sync_answer) \<Rightarrow> pollfd \<times> fence_info \<Rightarrow> action list" where
  "reap_actions sync_files e =
     snd (fence_timestamp (sync_files (fd (fst e)))) @
     [Act_close (fd (fst e)),
      Act_printf_frame (fence_frame_num (snd e))
        (fst (fence_timestamp (sync_files (fd (fst e)))) - fence_start_ns (snd e))]"

text \<open>The latency lines of a trace: frame number and latency.\<close>

fun latency_samples :: "action list \<Rightarrow> (int \<times> u64) list" where
  "latency_samples [] = []"
| "latency_samples (Act_printf_frame n d # acts) = (n, d) # latency_samples acts"
| "latency_samples (a # acts) = latency_samples acts"

section \<open>Concrete inputs\<close>

text \<open>
  The tracker of the scenario ``frames 3, 4, 5 at positions 1, 2, 3, position 2 ready'',
  and a kernel that reports one completion point at time 250 for every descriptor.
\<close>

definition scenario_tracker :: tracker where
  "scenario_tracker =
     \<lparr>fds = [\<lparr>fd = 3, events = POLLIN, revents = 0\<rparr>,
             \<lparr>fd = 10, events = POLLIN, revents = 0\<rparr>,
             \<lparr>fd = 11, events = POLLIN, revents = POLLIN\<rparr>,
             \<lparr>fd = 12, events = POLLIN, revents = 0\<rparr>]
            @ replicate 6 \<lparr>fd = 0, events = 0, revents = 0\<rparr>,
      fences = [\<lparr>fence_frame_num = 0, fence_start_ns = 0\<rparr>,
                \<lparr>fence_frame_num = 3, fence_start_ns = 100\<rparr>,
                \<lparr>fence_frame_num = 4, fence_start_ns = 200\<rparr>,
                \<lparr>fence_frame_num = 5, fence_start_ns = 300\<rparr>]
               @ replicate 6 \<lparr>fence_frame_num = 0, fence_start_ns = 0\<rparr>,
      len = 4, cap = 10\<rparr>"

definition scenario_kernel :: "int \<Rightarrow> sync_answer" where
  "scenario_kernel d = \<lparr>first_query = Some 1, second_query = Some [250]\<rparr>"

text \<open>Both reallocations of a \<^verbatim>\<open>track\<close> call succeed.\<close>

definition allocs_ok :: "track_env \<Rightarrow> bool" where
  "allocs_ok env \<longleftrightarrow> realloc_fds_ok env \<and> realloc_fences_ok env"

text \<open>The metadata and the descriptor a \<^verbatim>\<open>track\<close> call is given.\<close>

definition meta_of :: "track_env \<times> int \<times> u64 \<Rightarrow> fence_info" where
  "meta_of c = \<lparr>fence_frame_num = fst (snd c), fence_start_ns = snd (snd c)\<rparr>"

definition descriptor_of :: "track_env \<times> int \<times> u64 \<Rightarrow> int \<times> short" where
  "descriptor_of c = (dup_fence_fd (fst c), POLLIN)"

text \<open>
  The tracker at loop entry (display connection on descriptor 3), and eleven \<^verbatim>\<open>track\<close> calls
  for the frames 0 to 10, with an allocator that succeeds.
\<close>

definition entry_tracker :: tracker where
  "entry_tracker =
     \<lparr>fds = (replicate 10 \<lparr>fd = 0, events = 0, revents = 0\<rparr>)
              [0 := \<lparr>fd = 3, events = POLLIN OR POLLOUT, revents = 0\<rparr>],
      fences = replicate 10 \<lparr>fence_frame_num = 0, fence_start_ns = 0\<rparr>,
      len = 1, cap = 10\<rparr>"

definition good_track_env :: "int \<Rightarrow> track_env" where
  "good_track_env d =
     \<lparr>realloc_fds_ok = True, realloc_fences_ok = True,
      junk_pollfd = \<lparr>fd = 77, events = 7, revents = 1\<rparr>,
      junk_fence = \<lparr>fence_frame_num = 99, fence_start_ns = 9\<rparr>,
      dup_fence_fd = d\<rparr>"

definition eleven_calls :: "(track_env \<times> int \<times> u64) list" where
  "eleven_calls =
     map (\<lambda>n. (good_track_env (10 + n), n, 1000 + word_of_int n)) [0, 1, 2, 3, 4, 5, 6, 7, 8, 9, 10]"

definition full_tracker :: tracker where
  "full_tracker =
     \<lparr>fds = replicate 10 \<lparr>fd = 5, events = POLLIN, revents = 0\<rparr>,
      fences = replicate 10 \<lparr>fence_frame_num = 0, fence_start_ns = 0\<rparr>,
      len = 10, cap = 10\<rparr>"

definition failing_track_env :: track_env where
  "failing_track_env = (good_track_env 20)\<lparr>realloc_fences_ok := False\<rparr>"

section \<open>Vocabulary of the loop properties\<close>

text \<open>
  The states at the head of the loop: \<open>reach cfg envs st0 k st\<close> says that the loop, entered
  in \<open>st0\<close>, is about to test its condition for iteration \<open>k\<close> in state \<open>st\<close>.
\<close>

inductive reach :: "config \<Rightarrow> (nat \<Rightarrow> iter_env) \<Rightarrow> loop_state \<Rightarrow> nat \<Rightarrow> loop_state \<Rightarrow> bool"
  for cfg :: config and envs :: "nat \<Rightarrow> iter_env" and st0 :: loop_state
where
  reach_entry: "reach cfg envs st0 0 st0"
| reach_iteration:
    "reach cfg envs st0 k st \<Longrightarrow> \<not> close (wl st) \<Longrightarrow> frame_num st < max_frames cfg \<Longrightarrow>
     loop_body cfg (envs k) st = Some (Inr (Continue, st')) \<Longrightarrow>
     reach cfg envs st0 (Suc k) st'"

text \<open>
  The size the resize block applies to one dimension: the fixed size when one was given on
  the command line, the last negotiated size otherwise, and 500 when that is 0.
\<close>

definition applied_size :: "bool \<Rightarrow> int \<Rightarrow> int \<Rightarrow> int" where
  "applied_size fixed fixed_dim negotiated =
     (let d = (if fixed then fixed_dim else negotiated) in if d = 0 then 500 else d)"

text \<open>\<^verbatim>\<open>wl_state\<close> after the resize block, and the calls the block makes.\<close>

definition resized :: "config \<Rightarrow> wl_state \<Rightarrow> wl_state" where
  "resized cfg w =
     (if serial w \<noteq> 0
      then w\<lparr>width := applied_size (fixed_size cfg) (fixed_width cfg) (width w),
             height := applied_size (fixed_size cfg) (fixed_height cfg) (height w),
             serial := 0\<rparr>
      else w)"

definition resize_actions :: "config \<Rightarrow> wl_state \<Rightarrow> action list" where
  "resize_actions cfg w =
     (if serial w \<noteq> 0
      then [Act_window_resize (applied_size (fixed_size cfg) (fixed_width cfg) (width w))
                              (applied_size (fixed_size cfg) (fixed_height cfg) (height w)),
            Act_ack_configure (serial w)]
      else [])"

text \<open>The calls of one submission, in order.\<close>

definition submit_actions :: "config \<Rightarrow> loop_state \<Rightarrow> action list" where
  "submit_actions cfg st =
     (if unsynchronized cfg then [] else [Act_surface_frame (next_callback st)])
     @ resize_actions cfg (wl st)
     @ [Act_draw (width (resized cfg (wl st))) (height (resized cfg (wl st))) (frame_num st)]
     @ (if egl_has_fences cfg then [Act_create_sync] else [])
     @ [Act_swap_buffers]
     @ (if egl_has_fences cfg then [Act_destroy_sync] else [])"

text \<open>
  At most one frame callback exists, and it is the one in the slot \<^verbatim>\<open>wl_state.frame\<close>.
\<close>

definition one_callback :: "loop_state \<Rightarrow> bool" where
  "one_callback st \<longleftrightarrow> callbacks st = (case frame (wl st) of None \<Rightarrow> [] | Some c \<Rightarrow> [c])"

text \<open>The calls that only the render block makes.\<close>

fun render_action :: "action \<Rightarrow> bool" where
  "render_action (Act_surface_frame c) = True"
| "render_action (Act_window_resize w h) = True"
| "render_action (Act_ack_configure s) = True"
| "render_action (Act_draw w h n) = True"
| "render_action Act_create_sync = True"
| "render_action Act_swap_buffers = True"
| "render_action Act_destroy_sync = True"
| "render_action a = False"

text \<open>The submissions of a trace (one \<^verbatim>\<open>eglSwapBuffers\<close> each) and its callback requests.\<close>

definition submissions :: "action list \<Rightarrow> nat" where
  "submissions tr = length (filter (\<lambda>a. a = Act_swap_buffers) tr)"

fun callback_requests :: "action list \<Rightarrow> nat list" where
  "callback_requests [] = []"
| "callback_requests (Act_surface_frame c # acts) = c # callback_requests acts"
| "callback_requests (a # acts) = callback_requests acts"

text \<open>
  Inputs for the loop: a synchronized and an unsynchronized configuration, the state at loop
  entry, and an iteration in which nothing happens outside (the connection has nothing to
  read or write, \<^verbatim>\<open>poll\<close> reports no event).
\<close>

definition sync_config :: config where
  "sync_config = \<lparr>fixed_size = False, fixed_width = 0, fixed_height = 0, max_frames = 3,
                   unsynchronized = False, egl_has_fences = True\<rparr>"

definition unsync_config :: config where
  "unsync_config = sync_config\<lparr>unsynchronized := True, max_frames := 2\<rparr>"

definition entry_state :: loop_state where
  "entry_state =
     \<lparr>wl = \<lparr>close = False, serial = 0, width = 500, height = 500, frame = None\<rparr>,
      callbacks = [], next_callback = 0, trk = entry_tracker, frame_num = 0, trace = []\<rparr>"

definition idle_env :: iter_env where
  "idle_env =
     \<lparr>track_answers = good_track_env 10, clock_sec = 1, clock_nsec = 500,
      prepare_read_answers = (\<lambda>k. (0, 0)), pending_events = (\<lambda>k. []),
      flush_answers = (\<lambda>k. (0, 0)), poll_ret = 0, poll_errno = 0,
      poll_revents = (\<lambda>i. 0), read_events = [], sync_kernel = scenario_kernel\<rparr>"








text \<open>
  The answer of \<^verbatim>\<open>wl_display_prepare_read\<close> on which the loop retries: non-zero with
  \<^verbatim>\<open>errno == EAGAIN\<close>.
\<close>

definition retry :: "int \<times> int \<Rightarrow> bool" where
  "retry a \<longleftrightarrow> fst a \<noteq> 0 \<and> snd a = EAGAIN"

text \<open>
  A connection that never lets the read begin (every \<^verbatim>\<open>wl_display_prepare_read\<close> fails with
  \<^verbatim>\<open>EAGAIN\<close>, and dispatching delivers nothing), and one whose flush always reports bytes
  written.
\<close>

definition stuck_env :: iter_env where
  "stuck_env = idle_env\<lparr>prepare_read_answers := (\<lambda>k. (- 1, EAGAIN))\<rparr>"

definition busy_env :: iter_env where
  "busy_env = idle_env\<lparr>flush_answers := (\<lambda>k. (1, 0))\<rparr>"

text \<open>A connection that answers \<^verbatim>\<open>EAGAIN\<close> twice, and a flush that needs three calls.\<close>

definition twice_env :: iter_env where
  "twice_env = idle_env\<lparr>prepare_read_answers := (\<lambda>k. if k < 2 then (- 1, EAGAIN) else (0, 0)),
                         flush_answers := (\<lambda>k. if k < 2 then (64, 0) else (0, 0))\<rparr>"






text \<open>
  The conditions under which an unsynchronized run is left alone.  \<open>socket_quiet\<close>: the
  \<^verbatim>\<open>revents\<close> of the display connection, \<^verbatim>\<open>fds[0]\<close>, show neither \<^verbatim>\<open>POLLERR\<close> nor \<^verbatim>\<open>POLLHUP\<close>
  (after a \<^verbatim>\<open>poll\<close> interrupted by a signal the loop tests the value of the iteration
  before).  \<open>transport_ok\<close>: during the iteration the allocator does not fail, each of the
  two retry loops gets an answer on which it ends, no flush fails other than with
  \<^verbatim>\<open>EAGAIN\<close>, \<^verbatim>\<open>poll\<close> fails at most with \<^verbatim>\<open>EINTR\<close>, and it reports neither error nor hangup on
  the connection.  \<open>no_close_request\<close>: none of the events delivered during the iteration is
  the \<^verbatim>\<open>close\<close> event of the toplevel.  \<open>steady\<close>: what such a run keeps true at the head of
  the loop.
\<close>

definition socket_quiet :: "loop_state \<Rightarrow> bool" where
  "socket_quiet st \<longleftrightarrow> revents (fds (trk st) ! 0) AND (POLLERR OR POLLHUP) = 0"





section \<open>Properties of \<^verbatim>\<open>fence_timestamp\<close>\<close>

lemma latest_scan_Max:
  "i \<le> length fs \<Longrightarrow>
   latest_scan fs (length fs) i latest = Max (insert latest (set (drop i fs)))"
proof (induction "length fs - i" arbitrary: i latest)
  case 0
  then show ?case by (simp add: latest_scan.simps)
next
  case (Suc d)
  then have lt: "i < length fs" by simp
  have d: "d = length fs - Suc i" using Suc.hyps(2) by simp
  have drop_eq: "drop i fs = fs ! i # drop (Suc i) fs"
    using lt by (simp add: Cons_nth_drop_Suc)
  let ?rest = "set (drop (Suc i) fs)"
  have "latest_scan fs (length fs) i latest =
        latest_scan fs (length fs) (Suc i)
          (if fs ! i > latest then fs ! i else latest)"
    using lt by (subst latest_scan.simps) simp
  also have "\<dots> = Max (insert (if fs ! i > latest then fs ! i else latest) ?rest)"
    using Suc.hyps(1) [OF d] lt by simp
  also have "\<dots> = Max (insert (max latest (fs ! i)) ?rest)"
    by (auto simp: max_def)
  also have "\<dots> = Max (insert latest (insert (fs ! i) ?rest))"
  proof (cases "?rest = {}")
    case True
    then show ?thesis by simp
  next
    case False
    then show ?thesis
      by (simp add: max.assoc)
  qed
  finally show ?case by (simp add: drop_eq)
qed

lemma Max_insert_zero_word:
  fixes S :: "u64 set"
  assumes "finite S" "S \<noteq> {}"
  shows "Max (insert 0 S) = Max S"
  using assms by (simp add: max_def)

text \<open>
  C4.  When both kernel queries succeed, \<^verbatim>\<open>fence_timestamp\<close> returns the maximum of the
  timestamps of the completion points reported by the second query (0 when it reports no
  point), which for a single point is that point's timestamp, and logs nothing.  When the
  first or the second query fails it returns 0 and logs the error.  The two revisions of
  the program compute the same function.
\<close>

theorem fence_timestamp_latest:
  "fence_timestamp \<lparr>first_query = Some n, second_query = Some (t # ts)\<rparr>
     = (Max (set (t # ts)), [])
   \<and> fence_timestamp \<lparr>first_query = Some n, second_query = Some []\<rparr> = (0, [])
   \<and> fence_timestamp \<lparr>first_query = Some n, second_query = Some [t]\<rparr> = (t, [])
   \<and> fence_timestamp \<lparr>first_query = None, second_query = q\<rparr>
     = (0, [Act_perror ''SYNC_IOC_FILE_INFO''])
   \<and> fence_timestamp \<lparr>first_query = Some n, second_query = None\<rparr>
     = (0, [Act_perror ''SYNC_IOC_FILE_INFO''])
   \<and> fence_timestamp_simple k = fence_timestamp k"
proof -
  have scan: "latest_scan fs (length fs) 0 0 = Max (insert 0 (set fs))" for fs
    using latest_scan_Max [of 0 fs 0] by simp
  have a: "latest_scan (t # ts) (length (t # ts)) 0 0 = Max (set (t # ts))"
    unfolding scan by (rule Max_insert_zero_word) simp_all
  have b: "latest_scan [t] (length [t]) 0 0 = t"
    unfolding scan by (simp add: max_def)
  have c: "latest_scan [] (length ([] :: u64 list)) 0 0 = 0"
    unfolding scan by simp
  show ?thesis
    using a b c by (simp add: fence_timestamp_def fence_timestamp_simple_def)
qed


section \<open>The reap loop\<close>

lemma shift_list:
  fixes xs :: "'a list"
  assumes "Suc j < n" "n \<le> length xs"
  shows "take (Suc j) (xs[j := xs ! Suc j]) @ drop (Suc (Suc j)) (take n (xs[j := xs ! Suc j]))
           @ drop (n - 1) (xs[j := xs ! Suc j])
         = take j xs @ drop (Suc j) (take n xs) @ drop (n - 1) xs"
proof -
  have a: "take (Suc j) (xs[j := xs ! Suc j]) = take j xs @ [xs ! Suc j]"
    using assms by (simp add: take_Suc_conv_app_nth)
  have b: "drop (Suc (Suc j)) (take n (xs[j := xs ! Suc j])) = drop (Suc (Suc j)) (take n xs)"
    by (simp add: take_update_swap)
  have "j < n - 1" using assms by simp
  then have c: "drop (n - 1) (xs[j := xs ! Suc j]) = drop (n - 1) xs"
    by (rule drop_update_cancel)
  have d: "drop (Suc j) (take n xs) = xs ! Suc j # drop (Suc (Suc j)) (take n xs)"
    using assms by (simp add: Cons_nth_drop_Suc [symmetric])
  show ?thesis unfolding a b c d by simp
qed

lemma shift_down_spec:
  "j < len t \<Longrightarrow> len t \<le> length (fds t) \<Longrightarrow> len t \<le> length (fences t) \<Longrightarrow>
   fds (shift_down j t) = take j (fds t) @ drop (Suc j) (take (len t) (fds t)) @ drop (len t - 1) (fds t)
   \<and> fences (shift_down j t) = take j (fences t) @ drop (Suc j) (take (len t) (fences t)) @ drop (len t - 1) (fences t)
   \<and> len (shift_down j t) = len t \<and> cap (shift_down j t) = cap t"
proof (induction j t rule: shift_down.induct)
  case (1 j t)
  show ?case
  proof (cases "j < len t - 1")
    case True
    let ?t1 = "t\<lparr>fds := (fds t)[j := fds t ! (j + 1)], fences := (fences t)[j := fences t ! (j + 1)]\<rparr>"
    have sj: "Suc j < len t" using True by simp
    have ih: "fds (shift_down (Suc j) ?t1) = take (Suc j) (fds ?t1) @ drop (Suc (Suc j)) (take (len ?t1) (fds ?t1)) @ drop (len ?t1 - 1) (fds ?t1)
   \<and> fences (shift_down (Suc j) ?t1) = take (Suc j) (fences ?t1) @ drop (Suc (Suc j)) (take (len ?t1) (fences ?t1)) @ drop (len ?t1 - 1) (fences ?t1)
   \<and> len (shift_down (Suc j) ?t1) = len ?t1 \<and> cap (shift_down (Suc j) ?t1) = cap ?t1"
      using "1.IH" [OF True] sj "1.prems" by simp
    have unf: "shift_down j t = shift_down (Suc j) ?t1"
      using True by (subst shift_down.simps) simp
    show ?thesis
      unfolding unf using ih shift_list [OF sj "1.prems"(2)] shift_list [OF sj "1.prems"(3)]
      by simp
  next
    case False
    then have eq: "len t - 1 = j" using "1.prems" by simp
    have unf: "shift_down j t = t"
      using False by (subst shift_down.simps) simp
    have "n - 1 = j \<Longrightarrow> j < n \<Longrightarrow> n \<le> length xs \<Longrightarrow> take j xs @ drop (Suc j) (take n xs) @ drop (n - 1) xs = xs" for n and xs :: "'a list"
      by (cases n) auto
    then show ?thesis
      unfolding unf using eq "1.prems" by simp
  qed
qed


lemma in_use_length: "len t \<le> length (fds t) \<Longrightarrow> len t \<le> length (fences t) \<Longrightarrow> length (in_use t) = len t"
  by (simp add: in_use_def)

lemma in_use_nth:
  "i < len t \<Longrightarrow> len t \<le> length (fds t) \<Longrightarrow> len t \<le> length (fences t) \<Longrightarrow>
   in_use t ! i = (fds t ! i, fences t ! i)"
  by (simp add: in_use_def)

lemma in_use_shift:
  assumes "i < len t" "len t \<le> length (fds t)" "len t \<le> length (fences t)"
  shows "in_use ((shift_down i t)\<lparr>len := len (shift_down i t) - 1\<rparr>)
         = take i (in_use t) @ drop (Suc i) (in_use t)"
proof -
  note sp = shift_down_spec [OF assms]
  have l1: "length (take i (fds t) @ drop (Suc i) (take (len t) (fds t))) = len t - 1"
    using assms by simp
  have l2: "length (take i (fences t) @ drop (Suc i) (take (len t) (fences t))) = len t - 1"
    using assms by simp
  have f: "take (len t - 1) (fds (shift_down i t)) = take i (fds t) @ drop (Suc i) (take (len t) (fds t))"
    using sp l1 by (metis append_assoc append_eq_conv_conj)
  have g: "take (len t - 1) (fences (shift_down i t)) = take i (fences t) @ drop (Suc i) (take (len t) (fences t))"
    using sp l2 by (metis append_assoc append_eq_conv_conj)
  have len: "len (shift_down i t) = len t" using sp by simp
  have "in_use ((shift_down i t)\<lparr>len := len (shift_down i t) - 1\<rparr>)
        = zip (take i (fds t) @ drop (Suc i) (take (len t) (fds t)))
              (take i (fences t) @ drop (Suc i) (take (len t) (fences t)))"
    using f g by (simp add: in_use_def len)
  also have "\<dots> = zip (take i (fds t)) (take i (fences t))
                  @ zip (drop (Suc i) (take (len t) (fds t))) (drop (Suc i) (take (len t) (fences t)))"
    using assms by (intro zip_append) simp
  also have "\<dots> = take i (in_use t) @ drop (Suc i) (in_use t)"
    using assms by (simp add: in_use_def take_zip drop_zip min_def)
  finally show ?thesis .
qed

lemma reap_unfold_skip:
  "i < len t \<Longrightarrow> revents (fds t ! i) AND POLLIN = 0 \<Longrightarrow>
   reap sf i t out = reap sf (Suc i) t out"
  by (subst reap.simps) simp

lemma reap_unfold_take:
  "i < len t \<Longrightarrow> revents (fds t ! i) AND POLLIN \<noteq> 0 \<Longrightarrow>
   reap sf i t out =
     reap sf i ((shift_down i t)\<lparr>len := len (shift_down i t) - 1\<rparr>)
       (out @ reap_actions sf (fds t ! i, fences t ! i))"
  by (subst reap.simps) (simp add: reap_actions_def Let_def split: prod.splits)

lemma reap_unfold_done: "\<not> i < len t \<Longrightarrow> reap sf i t out = (t, out)"
  by (subst reap.simps) simp

lemma reap_spec:
  "len t \<le> length (fds t) \<Longrightarrow> len t \<le> length (fences t) \<Longrightarrow>
   in_use (fst (reap sf i t out))
     = take i (in_use t) @ filter (\<lambda>e. \<not> ready (fst e)) (drop i (in_use t))
   \<and> snd (reap sf i t out)
     = out @ concat (map (reap_actions sf) (filter (\<lambda>e. ready (fst e)) (drop i (in_use t))))
   \<and> len (fst (reap sf i t out)) \<le> len t
   \<and> length (fds (fst (reap sf i t out))) = length (fds t)
   \<and> length (fences (fst (reap sf i t out))) = length (fences t)
   \<and> cap (fst (reap sf i t out)) = cap t"
proof (induction sf i t out rule: reap.induct)
  case (1 sf i t out)
  note wf = "1.prems"
  show ?case
  proof (cases "i < len t")
    case False
    then have "take i (in_use t) = in_use t" "drop i (in_use t) = []"
      using wf by (simp_all add: in_use_length)
    then show ?thesis
      using False by (simp add: reap_unfold_done)
  next
    case True
    have nth: "in_use t ! i = (fds t ! i, fences t ! i)"
      using True wf by (rule in_use_nth)
    have "drop i (in_use t) = in_use t ! i # drop (Suc i) (in_use t)"
      using True wf by (intro Cons_nth_drop_Suc [symmetric]) (simp add: in_use_length)
    then have drp: "drop i (in_use t) = (fds t ! i, fences t ! i) # drop (Suc i) (in_use t)"
      by (simp only: nth)
    show ?thesis
    proof (cases "revents (fds t ! i) AND POLLIN = 0")
      case skip: True
      have tk: "take (Suc i) (in_use t) = take i (in_use t) @ [(fds t ! i, fences t ! i)]"
        using True wf nth by (simp add: take_Suc_conv_app_nth in_use_length)
      show ?thesis
        using "1.IH"(1) [OF True skip wf] skip
        by (simp add: reap_unfold_skip [OF True skip] drp tk ready_def)
    next
      case take: False
      let ?t' = "(shift_down i t)\<lparr>len := len (shift_down i t) - 1\<rparr>"
      let ?out' = "out @ reap_actions sf (fds t ! i, fences t ! i)"
      note sp = shift_down_spec [OF True wf]
      have wf': "len ?t' \<le> length (fds ?t')" "len ?t' \<le> length (fences ?t')"
        using sp wf True by simp_all
      have use': "in_use ?t' = take i (in_use t) @ drop (Suc i) (in_use t)"
        using True wf by (rule in_use_shift)
      have li: "i \<le> length (in_use t)" using True wf by (simp add: in_use_length)
      have tk': "take i (in_use ?t') = take i (in_use t)"
        unfolding use' using li by simp
      have dr': "drop i (in_use ?t') = drop (Suc i) (in_use t)"
        unfolding use' using li by simp
      have ih: "in_use (fst (reap sf i ?t' ?out'))
          = take i (in_use ?t') @ filter (\<lambda>e. \<not> ready (fst e)) (drop i (in_use ?t'))
        \<and> snd (reap sf i ?t' ?out')
          = ?out' @ concat (map (reap_actions sf) (filter (\<lambda>e. ready (fst e)) (drop i (in_use ?t'))))
        \<and> len (fst (reap sf i ?t' ?out')) \<le> len ?t'
        \<and> length (fds (fst (reap sf i ?t' ?out'))) = length (fds ?t')
        \<and> length (fences (fst (reap sf i ?t' ?out'))) = length (fences ?t')
        \<and> cap (fst (reap sf i ?t' ?out')) = cap ?t'"
        using "1.IH"(2) [OF True take refl _ refl refl,
            of "fst (fence_timestamp (sf (fd (fds t ! i))))"
               "snd (fence_timestamp (sf (fd (fds t ! i))))"] wf'
        by (simp add: reap_actions_def [abs_def])
      have lens: "length (fds ?t') = length (fds t)" "length (fences ?t') = length (fences t)"
           "cap ?t' = cap t" "len ?t' \<le> len t"
        using sp wf True by simp_all
      show ?thesis
        unfolding reap_unfold_take [OF True take]
        using ih [unfolded tk' dr'] take lens by (simp add: drp ready_def)
    qed
  qed
qed


lemma latency_samples_append:
  "latency_samples (xs @ ys) = latency_samples xs @ latency_samples ys"
  by (induction xs rule: latency_samples.induct) simp_all

lemma latency_samples_log: "latency_samples (snd (fence_timestamp k)) = []"
  by (simp add: fence_timestamp_def split: option.splits)

lemma latency_samples_reap_actions:
  "latency_samples (reap_actions sf e) =
     [(fence_frame_num (snd e),
       fst (fence_timestamp (sf (fd (fst e)))) - fence_start_ns (snd e))]"
  by (simp add: reap_actions_def latency_samples_append latency_samples_log)

lemma latency_samples_concat:
  "latency_samples (concat (map (reap_actions sf) es)) =
     map (\<lambda>e. (fence_frame_num (snd e),
                fst (fence_timestamp (sf (fd (fst e)))) - fence_start_ns (snd e))) es"
  by (induction es) (simp_all add: latency_samples_append latency_samples_reap_actions)

lemma ready_count_in_use:
  assumes "len t \<le> length (fds t)" "len t \<le> length (fences t)"
  shows "ready_count t = length (filter (\<lambda>e. ready (fst e)) (drop 1 (in_use t)))"
proof -
  have "map fst (in_use t) = take (len t) (fds t)"
    using assms by (simp add: in_use_def)
  then have "drop 1 (take (len t) (fds t)) = map fst (drop 1 (in_use t))"
    by (metis drop_map)
  then show ?thesis
    by (simp add: ready_count_def filter_map comp_def)
qed

text \<open>
  C1.  For a tracker whose two arrays have the same length and hold the \<open>len \<ge> 1\<close> entries
  in use, the reap loop (started at position 1, as the program does) removes exactly the
  ready positions other than 0: the length in use shrinks by their number \<open>N\<close> in both
  arrays, position 0 is as before, the entries that remain keep their order, and exactly
  one latency line is printed per reaped entry (with its frame number), \<open>N\<close> in all.
\<close>

theorem reap_removes_ready:
  assumes "length (fds t) = length (fences t)" and "1 \<le> len t" and "len t \<le> length (fds t)"
  shows "len (fst (reap sf 1 t [])) = len t - ready_count t
    \<and> length (take (len (fst (reap sf 1 t []))) (fds (fst (reap sf 1 t []))))
        = len t - ready_count t
    \<and> length (take (len (fst (reap sf 1 t []))) (fences (fst (reap sf 1 t []))))
        = len t - ready_count t
    \<and> length (fds (fst (reap sf 1 t []))) = length (fences (fst (reap sf 1 t [])))
    \<and> fds (fst (reap sf 1 t [])) ! 0 = fds t ! 0
    \<and> fences (fst (reap sf 1 t [])) ! 0 = fences t ! 0
    \<and> in_use (fst (reap sf 1 t []))
        = in_use t ! 0 # filter (\<lambda>e. \<not> ready (fst e)) (drop 1 (in_use t))
    \<and> snd (reap sf 1 t [])
        = concat (map (reap_actions sf) (filter (\<lambda>e. ready (fst e)) (drop 1 (in_use t))))
    \<and> latency_samples (snd (reap sf 1 t []))
        = map (\<lambda>e. (fence_frame_num (snd e),
                     fst (fence_timestamp (sf (fd (fst e)))) - fence_start_ns (snd e)))
            (filter (\<lambda>e. ready (fst e)) (drop 1 (in_use t)))
    \<and> length (latency_samples (snd (reap sf 1 t []))) = ready_count t"
proof -
  let ?t' = "fst (reap sf 1 t [])"
  let ?E = "in_use t"
  have wf: "len t \<le> length (fds t)" "len t \<le> length (fences t)"
    using assms by simp_all
  note sp = reap_spec [OF wf, of sf 1 "[]"]
  have lenE: "length ?E = len t" using wf by (rule in_use_length)
  have tk: "take 1 ?E = [?E ! 0]"
    using lenE assms(2) by (cases ?E) simp_all
  have use: "in_use ?t' = ?E ! 0 # filter (\<lambda>e. \<not> ready (fst e)) (drop 1 ?E)"
    using sp tk by simp
  have wf': "len ?t' \<le> length (fds ?t')" "len ?t' \<le> length (fences ?t')"
    using sp wf by simp_all
  have lenE': "length (in_use ?t') = len ?t'" using wf' by (rule in_use_length)
  have cnt: "length (filter (\<lambda>e. \<not> ready (fst e)) (drop 1 ?E)) + ready_count t
             = length (drop 1 ?E)"
    unfolding ready_count_in_use [OF wf]
    using sum_length_filter_compl [of "\<lambda>e. ready (fst e)" "drop 1 ?E"] by simp
  have len': "len ?t' = len t - ready_count t"
    using lenE' use cnt lenE assms(2) by simp
  have pos: "0 < len ?t'" using lenE' use by simp
  have "in_use ?t' ! 0 = (fds ?t' ! 0, fences ?t' ! 0)"
    using pos wf' by (rule in_use_nth)
  moreover have "?E ! 0 = (fds t ! 0, fences t ! 0)"
    using assms(2) wf by (intro in_use_nth) simp_all
  ultimately have zero: "fds ?t' ! 0 = fds t ! 0" "fences ?t' ! 0 = fences t ! 0"
    using use by simp_all
  have out: "snd (reap sf 1 t [])
        = concat (map (reap_actions sf) (filter (\<lambda>e. ready (fst e)) (drop 1 ?E)))"
    using sp by simp
  have samples: "latency_samples (snd (reap sf 1 t []))
        = map (\<lambda>e. (fence_frame_num (snd e),
                     fst (fence_timestamp (sf (fd (fst e)))) - fence_start_ns (snd e)))
            (filter (\<lambda>e. ready (fst e)) (drop 1 ?E))"
    unfolding out by (rule latency_samples_concat)
  have nsamples: "length (latency_samples (snd (reap sf 1 t []))) = ready_count t"
    unfolding samples ready_count_in_use [OF wf] by simp
  have lens: "length (fds ?t') = length (fences ?t')"
    using sp assms(1) by simp
  have tks: "length (take (len ?t') (fds ?t')) = len t - ready_count t"
       "length (take (len ?t') (fences ?t')) = len t - ready_count t"
    using wf' len' by simp_all
  show ?thesis
    using len' tks lens zero use out samples nsamples by blast
qed

theorem reap_removes_ready_witness:
  "map (\<lambda>e. fence_frame_num (snd e)) (in_use (fst (reap scenario_kernel 1 scenario_tracker [])))
     = [0, 3, 5]
   \<and> len (fst (reap scenario_kernel 1 scenario_tracker [])) = 3
   \<and> latency_samples (snd (reap scenario_kernel 1 scenario_tracker [])) = [(4, 50)]"
proof -
  have h: "length (fds scenario_tracker) = length (fences scenario_tracker)"
      "1 \<le> len scenario_tracker" "len scenario_tracker \<le> length (fds scenario_tracker)"
    by (simp_all add: scenario_tracker_def)
  have ts: "fence_timestamp (scenario_kernel d) = (250, [])" for d
    by (simp add: scenario_kernel_def fence_timestamp_def latest_scan.simps)
  have use: "in_use scenario_tracker =
      [(\<lparr>fd = 3, events = POLLIN, revents = 0\<rparr>, \<lparr>fence_frame_num = 0, fence_start_ns = 0\<rparr>),
       (\<lparr>fd = 10, events = POLLIN, revents = 0\<rparr>, \<lparr>fence_frame_num = 3, fence_start_ns = 100\<rparr>),
       (\<lparr>fd = 11, events = POLLIN, revents = POLLIN\<rparr>, \<lparr>fence_frame_num = 4, fence_start_ns = 200\<rparr>),
       (\<lparr>fd = 12, events = POLLIN, revents = 0\<rparr>, \<lparr>fence_frame_num = 5, fence_start_ns = 300\<rparr>)]"
    by (simp add: in_use_def scenario_tracker_def)
  have cnt: "ready_count scenario_tracker = 1"
    by (simp add: ready_count_def scenario_tracker_def ready_def POLLIN_def)
  have ln: "len scenario_tracker = 4"
    by (simp add: scenario_tracker_def)
  show ?thesis
    using reap_removes_ready [OF h, of scenario_kernel]
    by (simp add: use cnt ln ts ready_def POLLIN_def latency_samples_reap_actions)
qed

section \<open>\<^verbatim>\<open>track\<close>\<close>

lemma size_t_id: "n < 2 ^ 64 \<Longrightarrow> size_t n = n"
  by (simp add: size_t_def)

lemma grow_room: "len t \<noteq> cap t \<Longrightarrow> grow env t = Inr t"
  by (simp add: grow_def)

lemma grow_fail:
  "len t = cap t \<Longrightarrow> \<not> (realloc_fds_ok env \<and> realloc_fences_ok env) \<Longrightarrow>
   grow env t = Inl (Exit_failure 1)"
  by (auto simp: grow_def realloc_def Let_def)

lemma grow_full:
  assumes "tracker_ok t" "len t = cap t" "realloc_fds_ok env" "realloc_fences_ok env"
  shows "grow env t =
           Inr (t\<lparr>fds := fds t @ replicate (cap t) (junk_pollfd env),
                  fences := fences t @ replicate (cap t) (junk_fence env),
                  cap := 2 * cap t\<rparr>)"
proof -
  have c: "cap t < 2 ^ 59" and lf: "length (fds t) = cap t" and lm: "length (fences t) = cap t"
    using assms(1) by (simp_all add: tracker_ok_def)
  have c2: "size_t (cap t * 2) = 2 * cap t"
    using c by (intro size_t_id [THEN trans]) simp_all
  have b1: "size_t (sizeof_pollfd * (2 * cap t)) = 8 * (2 * cap t)"
    using c by (simp add: sizeof_pollfd_def size_t_def)
  have b2: "size_t (sizeof_fence_info * (2 * cap t)) = 16 * (2 * cap t)"
    using c by (simp add: sizeof_fence_info_def size_t_def)
  have d1: "16 * cap t div sizeof_pollfd = 2 * cap t"
    by (simp add: sizeof_pollfd_def)
  have d2: "32 * cap t div sizeof_fence_info = 2 * cap t"
    by (simp add: sizeof_fence_info_def)
  show ?thesis
    using assms(2-4) lf lm
    by (simp add: grow_def Let_def c2 b1 b2 realloc_def d1 d2)
qed

lemma in_use_snoc:
  fixes xs :: "'a list" and ys :: "'b list"
  assumes "n < length xs" "n < length ys"
  shows "zip (take (Suc n) (xs[n := x])) (take (Suc n) (ys[n := y]))
         = zip (take n xs) (take n ys) @ [(x, y)]"
proof -
  have a: "take (Suc n) (xs[n := x]) = take n xs @ [x]"
    using assms by (simp add: take_Suc_conv_app_nth)
  have b: "take (Suc n) (ys[n := y]) = take n ys @ [y]"
    using assms by (simp add: take_Suc_conv_app_nth)
  show ?thesis
    unfolding a b using assms by (subst zip_append) simp_all
qed

lemma store_fence_spec:
  assumes "len t < length (fds t)" "len t < length (fences t)" "len t + 1 < 2 ^ 64"
  shows "len (store_fence env fid st t) = len t + 1"
    and "cap (store_fence env fid st t) = cap t"
    and "length (fds (store_fence env fid st t)) = length (fds t)"
    and "length (fences (store_fence env fid st t)) = length (fences t)"
    and "fd (fds (store_fence env fid st t) ! len t) = dup_fence_fd env"
    and "events (fds (store_fence env fid st t) ! len t) = POLLIN"
    and "in_use (store_fence env fid st t)
         = in_use t @ [(fds (store_fence env fid st t) ! len t,
                        \<lparr>fence_frame_num = fid, fence_start_ns = st\<rparr>)]"
proof -
  have "size_t (len t + 1) = len t + 1"
    using assms(3) by (rule size_t_id)
  then have l: "size_t (Suc (len t)) = Suc (len t)"
    by simp
  show "len (store_fence env fid st t) = len t + 1"
    by (simp add: store_fence_def l)
  show "cap (store_fence env fid st t) = cap t"
    by (simp add: store_fence_def)
  show "length (fds (store_fence env fid st t)) = length (fds t)"
    by (simp add: store_fence_def)
  show "length (fences (store_fence env fid st t)) = length (fences t)"
    by (simp add: store_fence_def)
  show "fd (fds (store_fence env fid st t) ! len t) = dup_fence_fd env"
    using assms(1) by (simp add: store_fence_def)
  show "events (fds (store_fence env fid st t) ! len t) = POLLIN"
    using assms(1) by (simp add: store_fence_def)
  show "in_use (store_fence env fid st t)
         = in_use t @ [(fds (store_fence env fid st t) ! len t,
                        \<lparr>fence_frame_num = fid, fence_start_ns = st\<rparr>)]"
    using assms(1,2) in_use_snoc [OF assms(1,2)]
    by (simp add: store_fence_def l in_use_def)
qed

lemma track_step:
  assumes ok: "tracker_ok t" and room: "len t < cap t \<or> allocs_ok env"
  shows "\<exists>t'. track env fid st t = Inr t'
           \<and> len t' = len t + 1
           \<and> cap t' = (if len t = cap t then 2 * cap t else cap t)
           \<and> length (fds t') = cap t' \<and> length (fences t') = cap t'
           \<and> fd (fds t' ! len t) = dup_fence_fd env
           \<and> events (fds t' ! len t) = POLLIN
           \<and> in_use t' = in_use t @ [(fds t' ! len t,
                                        \<lparr>fence_frame_num = fid, fence_start_ns = st\<rparr>)]"
proof -
  have c: "cap t < 2 ^ 59" and lf: "length (fds t) = cap t" and lm: "length (fences t) = cap t"
    and le: "len t \<le> cap t" and pos: "1 \<le> len t"
    using ok by (simp_all add: tracker_ok_def)
  define g where "g = (if len t = cap t
      then t\<lparr>fds := fds t @ replicate (cap t) (junk_pollfd env),
             fences := fences t @ replicate (cap t) (junk_fence env),
             cap := 2 * cap t\<rparr>
      else t)"
  have gr: "grow env t = Inr g"
  proof (cases "len t = cap t")
    case True
    then have "allocs_ok env" using room by simp
    then show ?thesis
      using grow_full [OF ok True] True by (simp add: g_def allocs_ok_def)
  next
    case False
    then show ?thesis by (simp add: g_def grow_room)
  qed
  have glen: "len g = len t" and gcap: "cap g = (if len t = cap t then 2 * cap t else cap t)"
    and gf: "length (fds g) = cap g" and gm: "length (fences g) = cap g"
    using lf lm by (simp_all add: g_def)
  have lt: "len g < length (fds g)" "len g < length (fences g)"
    using gf gm glen gcap le pos by (simp_all split: if_splits)
  have small: "len g + 1 < 2 ^ 64"
    using glen le c by simp
  have use_g: "in_use g = in_use t"
    using lf lm le by (simp add: g_def in_use_def)
  note sf = store_fence_spec [OF lt small, of env fid st]
  have tr: "track env fid st t = Inr (store_fence env fid st g)"
    by (simp add: track_def gr)
  show ?thesis
    unfolding tr using sf gf gm gcap glen use_g by simp
qed

lemma track_all_spec:
  assumes "tracker_ok t" "\<forall>c \<in> set cs. allocs_ok (fst c)" "2 * (len t + length cs) < 2 ^ 59"
  shows "\<exists>t' news. track_all cs t = Inr t' \<and> tracker_ok t'
           \<and> in_use t' = in_use t @ news
           \<and> map snd news = map meta_of cs
           \<and> map (\<lambda>e. (fd (fst e), events (fst e))) news = map descriptor_of cs"
  using assms
proof (induction cs arbitrary: t)
  case Nil
  then show ?case by simp
next
  case (Cons c rest)
  obtain env fid st where c: "c = (env, fid, st)" by (cases c) auto
  have ok: "tracker_ok t" by (rule Cons.prems(1))
  have al: "allocs_ok env" using Cons.prems(2) c by simp
  from track_step [OF ok, of env fid st] al
  obtain t1 where t1: "track env fid st t = Inr t1" "len t1 = len t + 1"
      "cap t1 = (if len t = cap t then 2 * cap t else cap t)"
      "length (fds t1) = cap t1" "length (fences t1) = cap t1"
      "fd (fds t1 ! len t) = dup_fence_fd env" "events (fds t1 ! len t) = POLLIN"
      "in_use t1 = in_use t @ [(fds t1 ! len t, \<lparr>fence_frame_num = fid, fence_start_ns = st\<rparr>)]"
    by blast
  have le: "len t \<le> cap t" and pos: "1 \<le> len t" and c59: "cap t < 2 ^ 59"
    using ok by (simp_all add: tracker_ok_def)
  have ok1: "tracker_ok t1"
    using t1(2-5) le pos c59 Cons.prems(3)
    by (auto simp: tracker_ok_def split: if_splits)
  have bound1: "2 * (len t1 + length rest) < 2 ^ 59"
    using t1(2) Cons.prems(3) by simp
  have al1: "\<forall>c \<in> set rest. allocs_ok (fst c)"
    using Cons.prems(2) by simp
  from Cons.IH [OF ok1 al1 bound1]
  obtain t' news where r: "track_all rest t1 = Inr t'" "tracker_ok t'"
      "in_use t' = in_use t1 @ news" "map snd news = map meta_of rest"
      "map (\<lambda>e. (fd (fst e), events (fst e))) news = map descriptor_of rest"
    by blast
  let ?new = "(fds t1 ! len t, \<lparr>fence_frame_num = fid, fence_start_ns = st\<rparr>)"
  have "track_all (c # rest) t = Inr t'"
    by (simp add: c t1(1) r(1))
  moreover have "in_use t' = in_use t @ (?new # news)"
    by (simp add: r(3) t1(8))
  moreover have "map snd (?new # news) = map meta_of (c # rest)"
    by (simp add: r(4) c meta_of_def)
  moreover have "map (\<lambda>e. (fd (fst e), events (fst e))) (?new # news) = map descriptor_of (c # rest)"
    by (simp add: r(5) c descriptor_of_def t1(6,7))
  ultimately show ?case
    using r(2) by blast
qed

lemma trk_emit [simp]: "trk (emit acts st) = trk st"
  by (simp add: emit_def)

lemma trk_resize_window [simp]: "trk (resize_window cfg st) = trk st"
  by (simp add: resize_window_def Let_def)

lemma submit_alloc_failure:
  assumes "egl_has_fences cfg" "len (trk st) = cap (trk st)"
    "\<not> allocs_ok (track_answers env)"
  shows "submit cfg env st = Inl (Exit_failure 1)"
proof -
  have "track (track_answers env) n s (trk st) = Inl (Exit_failure 1)" for n s
    using assms(2,3) by (simp add: track_def grow_fail allocs_ok_def)
  then show ?thesis
    using assms(1) by (simp add: submit_def Let_def)
qed

text \<open>
  C2.  For a tracker as the program keeps it, \<^verbatim>\<open>track\<close> (with room left, or with both
  reallocations succeeding) stores the record at position \<^verbatim>\<open>len\<close>, the next free one, and
  leaves the entries before it as they are; when \<^verbatim>\<open>len = cap\<close> it has first doubled \<^verbatim>\<open>cap\<close> and
  the length of both arrays.  After any number of calls the entries in use are the old ones
  followed by one entry per call, in order, each with the frame number, submit time and
  descriptor of its call.  When \<^verbatim>\<open>len = cap\<close> and a reallocation fails, \<^verbatim>\<open>track\<close> makes \<^verbatim>\<open>main\<close>
  return 1: the main loop, about to submit in that state, ends the process with exit code 1.
\<close>

theorem track_appends:
  assumes "tracker_ok t"
  shows "(len t < cap t \<or> allocs_ok env \<longrightarrow>
            (\<exists>t'. track env frame_id submit_time t = Inr t'
               \<and> len t' = len t + 1
               \<and> cap t' = (if len t = cap t then 2 * cap t else cap t)
               \<and> length (fds t') = cap t' \<and> length (fences t') = cap t'
               \<and> fd (fds t' ! len t) = dup_fence_fd env
               \<and> events (fds t' ! len t) = POLLIN
               \<and> in_use t' = in_use t @
                     [(fds t' ! len t,
                       \<lparr>fence_frame_num = frame_id, fence_start_ns = submit_time\<rparr>)]))
    \<and> ((\<forall>c \<in> set calls. allocs_ok (fst c)) \<and> 2 * (len t + length calls) < 2 ^ 59 \<longrightarrow>
            (\<exists>t' news. track_all calls t = Inr t' \<and> tracker_ok t'
               \<and> len t' = len t + length calls
               \<and> in_use t' = in_use t @ news
               \<and> map snd news = map meta_of calls
               \<and> map (\<lambda>e. (fd (fst e), events (fst e))) news = map descriptor_of calls))
    \<and> (len t = cap t \<and> \<not> allocs_ok env \<longrightarrow>
            track env frame_id submit_time t = Inl (Exit_failure 1)
            \<and> exit_code (Inl (Exit_failure 1)) = Some 1
            \<and> (\<forall>(cfg :: config) (envs :: nat \<Rightarrow> iter_env) k (st :: loop_state).
                  trk st = t \<and> track_answers (envs k) = env \<and> egl_has_fences cfg
                  \<and> \<not> close (wl st) \<and> frame_num st < max_frames cfg
                  \<and> (unsynchronized cfg \<or> frame (wl st) = None)
                  \<longrightarrow> main_loop cfg envs k st = Some (Inl (Exit_failure 1))))"
proof (intro conjI impI allI)
  assume "len t < cap t \<or> allocs_ok env"
  then show "\<exists>t'. track env frame_id submit_time t = Inr t'
               \<and> len t' = len t + 1
               \<and> cap t' = (if len t = cap t then 2 * cap t else cap t)
               \<and> length (fds t') = cap t' \<and> length (fences t') = cap t'
               \<and> fd (fds t' ! len t) = dup_fence_fd env
               \<and> events (fds t' ! len t) = POLLIN
               \<and> in_use t' = in_use t @
                     [(fds t' ! len t,
                       \<lparr>fence_frame_num = frame_id, fence_start_ns = submit_time\<rparr>)]"
    by (rule track_step [OF assms])
next
  assume a: "(\<forall>c \<in> set calls. allocs_ok (fst c)) \<and> 2 * (len t + length calls) < 2 ^ 59"
  from track_all_spec [OF assms, of calls] a
  obtain t' news where r: "track_all calls t = Inr t'" "tracker_ok t'"
      "in_use t' = in_use t @ news" "map snd news = map meta_of calls"
      "map (\<lambda>e. (fd (fst e), events (fst e))) news = map descriptor_of calls"
    by blast
  have "length (in_use t') = len t'" "length (in_use t) = len t"
    using r(2) assms by (simp_all add: in_use_length tracker_ok_def)
  moreover have "length news = length calls"
    using r(4) by (metis length_map)
  ultimately have "len t' = len t + length calls"
    using r(3) by (metis length_append)
  then show "\<exists>t' news. track_all calls t = Inr t' \<and> tracker_ok t'
               \<and> len t' = len t + length calls
               \<and> in_use t' = in_use t @ news
               \<and> map snd news = map meta_of calls
               \<and> map (\<lambda>e. (fd (fst e), events (fst e))) news = map descriptor_of calls"
    using r by blast
next
  assume "len t = cap t \<and> \<not> allocs_ok env"
  then show "track env frame_id submit_time t = Inl (Exit_failure 1)"
    by (simp add: track_def grow_fail allocs_ok_def)
next
  show "exit_code (Inl (Exit_failure 1)) = Some 1"
    by (simp add: exit_code_def)
next
  fix cfg :: config and envs :: "nat \<Rightarrow> iter_env" and k and st :: loop_state
  assume f: "len t = cap t \<and> \<not> allocs_ok env"
    and s: "trk st = t \<and> track_answers (envs k) = env \<and> egl_has_fences cfg
            \<and> \<not> close (wl st) \<and> frame_num st < max_frames cfg
            \<and> (unsynchronized cfg \<or> frame (wl st) = None)"
  have "submit cfg (envs k) st = Inl (Exit_failure 1)"
    using f s by (intro submit_alloc_failure) simp_all
  then have "loop_body cfg (envs k) st = Some (Inl (Exit_failure 1))"
    using s by (simp add: loop_body_def render_def)
  then show "main_loop cfg envs k st = Some (Inl (Exit_failure 1))"
    using s by (subst main_loop.simps) simp
qed

lemma eleven_eval:
  "\<exists>t'. track_all eleven_calls entry_tracker = Inr t' \<and> cap t' = 20"
  by (simp add: eleven_calls_def entry_tracker_def good_track_env_def track_def grow_def
        store_fence_def realloc_def size_t_def sizeof_pollfd_def sizeof_fence_info_def Let_def)

theorem track_appends_witness:
  "(\<exists>t'. track_all eleven_calls entry_tracker = Inr t' \<and> cap t' = 20 \<and> len t' = 12
         \<and> map snd (drop 1 (in_use t')) = map meta_of eleven_calls)
   \<and> track failing_track_env 10 0 full_tracker = Inl (Exit_failure 1)"
proof -
  have ok: "tracker_ok entry_tracker" and ok2: "tracker_ok full_tracker"
    by (simp_all add: tracker_ok_def entry_tracker_def full_tracker_def)
  have h: "(\<forall>c \<in> set eleven_calls. allocs_ok (fst c))
           \<and> 2 * (len entry_tracker + length eleven_calls) < 2 ^ 59"
    by (simp add: eleven_calls_def allocs_ok_def good_track_env_def entry_tracker_def)
  from track_appends [OF ok, where calls = eleven_calls] h
  obtain t' news where r: "track_all eleven_calls entry_tracker = Inr t'"
      "len t' = len entry_tracker + length eleven_calls"
      "in_use t' = in_use entry_tracker @ news" "map snd news = map meta_of eleven_calls"
    by blast
  have one: "length (in_use entry_tracker) = 1"
    by (simp add: in_use_def entry_tracker_def)
  have a: "len t' = 12"
    using r(2) by (simp add: entry_tracker_def eleven_calls_def)
  have b: "map snd (drop 1 (in_use t')) = map meta_of eleven_calls"
    using r(3,4) one by simp
  have c: "cap t' = 20"
    using eleven_eval r(1) by auto
  have f: "len full_tracker = cap full_tracker \<and> \<not> allocs_ok failing_track_env"
    by (simp add: full_tracker_def failing_track_env_def allocs_ok_def)
  from track_appends [OF ok2, where env = failing_track_env] f
  have d: "track failing_track_env 10 0 full_tracker = Inl (Exit_failure 1)"
    by blast
  show ?thesis
    using r(1) a b c d by blast
qed

section \<open>How the parts of the loop body change the state\<close>

lemma emit_fields [simp]:
  "wl (emit acts st) = wl st" "callbacks (emit acts st) = callbacks st"
  "next_callback (emit acts st) = next_callback st" "frame_num (emit acts st) = frame_num st"
  "trace (emit acts st) = trace st @ acts"
  by (simp_all add: emit_def)

lemma dispatch_events_invariant:
  assumes step: "\<And>ev st st'. P st \<Longrightarrow> dispatch_event ev st = Inr st' \<Longrightarrow> P st'"
  shows "P st \<Longrightarrow> dispatch_events evs st = Inr st' \<Longrightarrow> P st'"
proof (induction evs arbitrary: st)
  case Nil
  then show ?case by simp
next
  case (Cons ev evs)
  then show ?case
    by (auto split: sum.splits dest: step)
qed

lemma prepare_read_loop_invariant:
  assumes em: "\<And>st. P st \<Longrightarrow> P (emit [Act_prepare_read] st)"
    and dp: "\<And>evs st st'. P st \<Longrightarrow> dispatch_pending evs st = Inr st' \<Longrightarrow> P st'"
    and run: "prepare_read_loop env k st = Some r"
  shows "P st \<Longrightarrow> r = Inr st' \<Longrightarrow> P st'"
  using run
proof (induction env k st r rule: prepare_read_loop.raw_induct [rotated -1, consumes 1])
  case (1 rec env k st r)
  show ?case
  proof (cases "prepare_read_answers env k")
    case (Pair ret errno)
    show ?thesis
    proof (cases "ret \<noteq> 0 \<and> errno = EAGAIN")
      case True
      show ?thesis
      proof (cases "dispatch_pending (pending_events env k) (emit [Act_prepare_read] st)")
        case (Inl f)
        then show ?thesis using "1.hyps" "1.prems" Pair True by simp
      next
        case (Inr st1)
        have p1: "P st1" using dp [OF em [OF "1.prems"(1)] Inr] .
        have "rec env (Suc k) st1 = Some r"
          using "1.hyps" Pair True Inr by simp
        then show ?thesis
          using "1.IH" p1 "1.prems"(2) by blast
      qed
    next
      case False
      then show ?thesis
        using "1.hyps" "1.prems" Pair em by auto
    qed
  qed
qed

lemma flush_loop_invariant:
  assumes em: "\<And>st. P st \<Longrightarrow> P (emit [Act_flush] st)"
    and run: "flush_loop env k st = Some r"
  shows "P st \<Longrightarrow> P (snd r)"
  using run
proof (induction env k st r rule: flush_loop.raw_induct [rotated -1, consumes 1])
  case (1 rec env k st r)
  show ?case
  proof (cases "flush_answers env k")
    case (Pair ret errno)
    show ?thesis
    proof (cases "ret > 0")
      case True
      then have "rec env (Suc k) (emit [Act_flush] st) = Some r"
        using "1.hyps" Pair by simp
      then show ?thesis
        using "1.IH" em [OF "1.prems"] by blast
    next
      case False
      then show ?thesis
        using "1.hyps" "1.prems" Pair em by auto
    qed
  qed
qed

lemma emit_Nil [simp]: "emit [] st = st"
  by (simp add: emit_def)

lemma emit_emit [simp]: "emit bs (emit as st) = emit (as @ bs) st"
  by (simp add: emit_def)

lemma emit_list_invariant:
  assumes "\<And>a st. P st \<Longrightarrow> a \<in> A \<Longrightarrow> P (emit [a] st)"
  shows "P st \<Longrightarrow> set acts \<subseteq> A \<Longrightarrow> P (emit acts st)"
proof (induction acts arbitrary: st)
  case Nil
  then show ?case by simp
next
  case (Cons a acts)
  have "P (emit [a] st)" using Cons.prems assms by simp
  then have "P (emit acts (emit [a] st))"
    by (rule Cons.IH) (use Cons.prems in simp)
  then show ?case by simp
qed

text \<open>
  An invariant of the loop body: \<open>P\<close> holds before the render block, \<open>Q\<close> after it, and every
  later step of the body keeps \<open>Q\<close>.
\<close>

definition quiet_actions :: "action set" where
  "quiet_actions = {Act_prepare_read, Act_dispatch_pending, Act_flush, Act_cancel_read,
                    Act_perror ''poll'', Act_read_events}"

lemma loop_body_invariant:
  assumes rn: "\<And>st1. render cfg env st = Inr st1 \<Longrightarrow> Q st1"
    and em: "\<And>a s. Q s \<Longrightarrow> a \<in> quiet_actions \<Longrightarrow> Q (emit [a] s)"
    and de: "\<And>ev s s'. Q s \<Longrightarrow> dispatch_event ev s = Inr s' \<Longrightarrow> Q s'"
    and s0: "\<And>f s. Q s \<Longrightarrow> Q (set_events0 f s)"
    and pl: "\<And>s. Q s \<Longrightarrow> Q (poll cfg env s)"
    and rp: "\<And>s. Q s \<Longrightarrow>
               Q (emit (snd (reap (sync_kernel env) 1 (trk s) []))
                    (s\<lparr>trk := fst (reap (sync_kernel env) 1 (trk s) [])\<rparr>))"
    and run: "loop_body cfg env st = Some (Inr (fl, st'))"
  shows "Q st'"
proof -
  have dp: "Q s \<Longrightarrow> dispatch_pending evs s = Inr s' \<Longrightarrow> Q s'" for evs s s'
  proof -
    assume q: "Q s" and d: "dispatch_pending evs s = Inr s'"
    have "Q (emit [Act_dispatch_pending] s)"
      by (rule em [OF q]) (simp add: quiet_actions_def)
    moreover have "dispatch_events evs (emit [Act_dispatch_pending] s) = Inr s'"
      using d by (simp add: dispatch_pending_def)
    ultimately show "Q s'"
      using de by (rule dispatch_events_invariant [where P = Q, rotated 1])
  qed
  have wr: "Q s \<Longrightarrow> wait_and_reap cfg env s = Inr (fl, s') \<Longrightarrow> Q s'" for s s'
  proof -
    assume q: "Q s" and w: "wait_and_reap cfg env s = Inr (fl, s')"
    have q1: "Q (poll cfg env s)" using q by (rule pl)
    have c1: "Q (emit [Act_perror ''poll'', Act_cancel_read] (poll cfg env s))"
    proof (rule emit_list_invariant [where A = quiet_actions and P = Q])
      show "Q (poll cfg env s)" by (rule q1)
      show "set [Act_perror ''poll'', Act_cancel_read] \<subseteq> quiet_actions"
        by (simp add: quiet_actions_def)
    qed (rule em)
    have c2: "Q (emit [Act_cancel_read] (poll cfg env s))"
      by (rule em [OF q1]) (simp add: quiet_actions_def)
    have c3: "Q (emit [Act_read_events] (poll cfg env s))"
      by (rule em [OF q1]) (simp add: quiet_actions_def)
    show "Q s'"
    proof (cases "poll_ret env = - 1 \<and> poll_errno env \<noteq> EINTR")
      case True
      then show ?thesis using w c1 by (simp add: wait_and_reap_def Let_def)
    next
      case nf: False
      show ?thesis
      proof (cases "revents (fds (trk (poll cfg env s)) ! 0) AND (POLLERR OR POLLHUP) \<noteq> 0")
        case True
        then show ?thesis using w c2 nf by (simp add: wait_and_reap_def Let_def)
      next
        case False
        with w nf obtain s2 where
          d: "dispatch_pending (read_events env) (emit [Act_read_events] (poll cfg env s)) = Inr s2"
          and e: "s' = emit (snd (reap (sync_kernel env) 1 (trk s2) []))
                         (s2\<lparr>trk := fst (reap (sync_kernel env) 1 (trk s2) [])\<rparr>)"
          by (auto simp: wait_and_reap_def Let_def split: sum.splits prod.splits)
        have "Q s2" using c3 d by (rule dp)
        then show ?thesis unfolding e by (rule rp)
      qed
    qed
  qed
  have af: "Q s \<Longrightarrow> after_flush cfg env r s = Inr (fl, s') \<Longrightarrow> Q s'" for r s s'
  proof -
    assume q: "Q s" and a: "after_flush cfg env r s = Inr (fl, s')"
    have "Q (emit [Act_cancel_read] s)"
      by (rule em [OF q]) (simp add: quiet_actions_def)
    then show "Q s'"
      using a wr [OF s0 [OF q]]
      by (auto simp: after_flush_def split: prod.splits if_splits)
  qed
  from run obtain st1 where r1: "render cfg env st = Inr st1"
    by (auto simp: loop_body_def split: sum.splits)
  from run r1 obtain st2 where r2: "prepare_read_loop env 0 st1 = Some (Inr st2)"
    by (auto simp: loop_body_def split: sum.splits option.splits)
  from run r1 r2 obtain r st3 where r3: "flush_loop env 0 st2 = Some (r, st3)"
    and r4: "after_flush cfg env r st3 = Inr (fl, st')"
    by (auto simp: loop_body_def split: sum.splits option.splits)
  have q1: "Q st1" using r1 by (rule rn)
  have q2: "Q st2"
  proof (rule prepare_read_loop_invariant [where P = Q, OF _ _ r2 q1 refl])
    show "Q (emit [Act_prepare_read] s)" if "Q s" for s
      by (rule em [OF that]) (simp add: quiet_actions_def)
    show "Q s'" if "Q s" "dispatch_pending evs s = Inr s'" for evs s s'
      using that by (rule dp)
  qed
  have "Q (snd (r, st3))"
  proof (rule flush_loop_invariant [where P = Q, OF _ r3 q2])
    show "Q (emit [Act_flush] s)" if "Q s" for s
      by (rule em [OF that]) (simp add: quiet_actions_def)
  qed
  then have q3: "Q st3" by simp
  show ?thesis using af [OF q3 r4] .
qed

lemma reach_invariant:
  assumes step: "\<And>k st st'. P st \<Longrightarrow> \<not> close (wl st) \<Longrightarrow> frame_num st < max_frames cfg \<Longrightarrow>
                   loop_body cfg (envs k) st = Some (Inr (Continue, st')) \<Longrightarrow> P st'"
  shows "reach cfg envs st0 k st \<Longrightarrow> P st0 \<Longrightarrow> P st"
  by (induction rule: reach.induct) (auto intro: step)


section \<open>The render block\<close>

lemma resize_window_eq:
  "resize_window cfg st = emit (resize_actions cfg (wl st)) (st\<lparr>wl := resized cfg (wl st)\<rparr>)"
  by (simp add: resize_window_def resized_def resize_actions_def applied_size_def Let_def
        emit_def)

lemma submit_result:
  assumes "submit cfg env st = Inr st'"
  shows "wl st' = (resized cfg (wl st))
                    \<lparr>frame := (if unsynchronized cfg then frame (wl st)
                                 else Some (next_callback st))\<rparr>"
    and "callbacks st' = (if unsynchronized cfg then callbacks st
                          else callbacks st @ [next_callback st])"
    and "next_callback st' = (if unsynchronized cfg then next_callback st
                              else Suc (next_callback st))"
    and "frame_num st' = frame_num st + 1"
    and "trace st' = trace st @ submit_actions cfg st"
    and "if egl_has_fences cfg
         then track (track_answers env) (frame_num st) (clock_ns env) (trk st) = Inr (trk st')
         else trk st' = trk st"
proof -
  define st1 where "st1 = (if \<not> unsynchronized cfg
                 then emit [Act_surface_frame (next_callback st)]
                        (st\<lparr>wl := (wl st)\<lparr>frame := Some (next_callback st)\<rparr>,
                            callbacks := callbacks st @ [next_callback st],
                            next_callback := Suc (next_callback st)\<rparr>)
                 else st)"
  define st5 where "st5 = emit ([Act_draw (width (wl (resize_window cfg st1)))
                                   (height (wl (resize_window cfg st1))) (frame_num (resize_window cfg st1))]
                 @ (if egl_has_fences cfg then [Act_create_sync] else []) @ [Act_swap_buffers])
              (resize_window cfg st1)"
  have f1: "wl st1 = (wl st)\<lparr>frame := (if unsynchronized cfg then frame (wl st)
                                 else Some (next_callback st))\<rparr>"
      "callbacks st1 = (if unsynchronized cfg then callbacks st
                          else callbacks st @ [next_callback st])"
      "next_callback st1 = (if unsynchronized cfg then next_callback st
                              else Suc (next_callback st))"
      "frame_num st1 = frame_num st" "trk st1 = trk st"
      "trace st1 = trace st @ (if unsynchronized cfg then [] else [Act_surface_frame (next_callback st)])"
    by (simp_all add: st1_def emit_def)
  have f5: "wl st5 = resized cfg (wl st1)" "callbacks st5 = callbacks st1"
      "next_callback st5 = next_callback st1" "frame_num st5 = frame_num st1"
      "trk st5 = trk st1"
      "trace st5 = trace st1 @ resize_actions cfg (wl st1)
          @ [Act_draw (width (resized cfg (wl st1))) (height (resized cfg (wl st1))) (frame_num st1)]
          @ (if egl_has_fences cfg then [Act_create_sync] else []) @ [Act_swap_buffers]"
    by (simp_all add: st5_def resize_window_eq emit_def)
  have sub: "submit cfg env st =
      (if egl_has_fences cfg
       then (case track (track_answers env) (frame_num st5) (clock_ns env) (trk st5) of
               Inl f \<Rightarrow> Inl f
             | Inr t \<Rightarrow> Inr ((emit [Act_destroy_sync] (st5\<lparr>trk := t\<rparr>))
                                \<lparr>frame_num := frame_num st5 + 1\<rparr>))
       else Inr (st5\<lparr>frame_num := frame_num st5 + 1\<rparr>))"
    unfolding submit_def st5_def st1_def Let_def by (simp add: emit_def split: sum.splits)
  have rz: "resized cfg (w\<lparr>frame := x\<rparr>) = (resized cfg w)\<lparr>frame := x\<rparr>"
     "resize_actions cfg (w\<lparr>frame := x\<rparr>) = resize_actions cfg w"
     "(resized cfg w)\<lparr>frame := frame w\<rparr> = resized cfg w" for w x
    by (simp_all add: resized_def resize_actions_def)
  show "wl st' = (resized cfg (wl st))
                    \<lparr>frame := (if unsynchronized cfg then frame (wl st)
                                 else Some (next_callback st))\<rparr>"
    using assms unfolding sub by (auto simp: f5 f1 rz emit_def split: if_splits sum.splits)
  show "callbacks st' = (if unsynchronized cfg then callbacks st
                          else callbacks st @ [next_callback st])"
    using assms unfolding sub by (auto simp: f5 f1 emit_def split: if_splits sum.splits)
  show "next_callback st' = (if unsynchronized cfg then next_callback st
                              else Suc (next_callback st))"
    using assms unfolding sub by (auto simp: f5 f1 emit_def split: if_splits sum.splits)
  show "frame_num st' = frame_num st + 1"
    using assms unfolding sub by (auto simp: f5 f1 emit_def split: if_splits sum.splits)
  show "trace st' = trace st @ submit_actions cfg st"
    using assms unfolding sub
    by (auto simp: f5 f1 rz emit_def submit_actions_def split: if_splits sum.splits)
  show "if egl_has_fences cfg
         then track (track_answers env) (frame_num st) (clock_ns env) (trk st) = Inr (trk st')
         else trk st' = trk st"
    using assms unfolding sub by (auto simp: f5 f1 emit_def split: if_splits sum.splits)
qed

lemma submit_returns:
  assumes "\<not> egl_has_fences cfg \<or> len (trk st) \<noteq> cap (trk st)
           \<or> allocs_ok (track_answers env)"
  shows "\<exists>st'. submit cfg env st = Inr st'"
proof (cases "egl_has_fences cfg")
  case False
  then show ?thesis by (simp add: submit_def Let_def)
next
  case True
  then have "grow (track_answers env) (trk st) \<noteq> Inl f" for f
    using assms by (auto simp: grow_def realloc_def allocs_ok_def Let_def)
  then have "track (track_answers env) n s (trk st) \<noteq> Inl f" for n s f
    by (auto simp: track_def split: sum.splits)
  then show ?thesis
    using True by (simp add: submit_def Let_def split: sum.splits)
qed

section \<open>Fields that the steps of the loop body leave alone\<close>

lemma set_events0_fields [simp]:
  "wl (set_events0 f st) = wl st" "callbacks (set_events0 f st) = callbacks st"
  "next_callback (set_events0 f st) = next_callback st"
  "frame_num (set_events0 f st) = frame_num st" "trace (set_events0 f st) = trace st"
  "len (trk (set_events0 f st)) = len (trk st)" "cap (trk (set_events0 f st)) = cap (trk st)"
  "fences (trk (set_events0 f st)) = fences (trk st)"
  "length (fds (trk (set_events0 f st))) = length (fds (trk st))"
  by (simp_all add: set_events0_def)

lemma poll_fields [simp]:
  "wl (poll cfg env st) = wl st" "callbacks (poll cfg env st) = callbacks st"
  "next_callback (poll cfg env st) = next_callback st"
  "frame_num (poll cfg env st) = frame_num st"
  "trace (poll cfg env st)
     = trace st @ [Act_poll (len (trk st)) (if unsynchronized cfg then 0 else - 1)]"
  "len (trk (poll cfg env st)) = len (trk st)" "cap (trk (poll cfg env st)) = cap (trk st)"
  "fences (trk (poll cfg env st)) = fences (trk st)"
  "length (fds (trk (poll cfg env st))) = length (fds (trk st))"
  by (simp_all add: poll_def write_revents_def)

lemma dispatch_event_cases:
  assumes "dispatch_event ev st = Inr st'"
  shows "trk st' = trk st \<and> frame_num st' = frame_num st \<and> next_callback st' = next_callback st
    \<and> filter render_action (trace st') = filter render_action (trace st)
    \<and> latency_samples (trace st') = latency_samples (trace st)"
  using assms
  by (cases ev)
     (auto simp: dispatch_event_def frame_done_def latency_samples_append
           split: if_splits option.splits)

lemma reap_no_render_action:
  "filter render_action (snd (reap sf i t out)) = filter render_action out"
proof (induction sf i t out rule: reap.induct)
  case (1 sf i t out)
  have lg: "filter render_action (snd (fence_timestamp k)) = []" for k
    by (simp add: fence_timestamp_def split: option.splits)
  show ?case
  proof (cases "i < len t")
    case False
    then show ?thesis by (simp add: reap_unfold_done)
  next
    case True
    show ?thesis
    proof (cases "revents (fds t ! i) AND POLLIN = 0")
      case skip: True
      show ?thesis
        using "1.IH"(1) [OF True skip] by (simp add: reap_unfold_skip [OF True skip])
    next
      case take: False
      show ?thesis
        unfolding reap_unfold_take [OF True take]
        using "1.IH"(2) [OF True take refl _ refl refl,
            of "fst (fence_timestamp (sf (fd (fds t ! i))))"
               "snd (fence_timestamp (sf (fd (fds t ! i))))"]
        by (simp add: reap_actions_def lg)
    qed
  qed
qed

section \<open>The frame callback\<close>

lemma dispatch_event_one_callback:
  assumes "one_callback st"
  shows "\<exists>st'. dispatch_event ev st = Inr st' \<and> one_callback st'
           \<and> frame (wl st') = (if \<exists>c. ev = Ev_frame_done c \<and> frame (wl st) = Some c
                                then None else frame (wl st))"
  using assms
  by (cases ev)
     (auto simp: dispatch_event_def frame_done_def one_callback_def xdg_base_configure_def
           toplevel_configure_def toplevel_close_def emit_def split: option.splits)

lemma render_one_callback:
  assumes "one_callback st" "render cfg env st = Inr st1"
  shows "one_callback st1"
proof (cases "unsynchronized cfg \<or> frame (wl st) = None")
  case False
  then show ?thesis using assms by (auto simp: render_def)
next
  case True
  then have s: "submit cfg env st = Inr st1" using assms(2) by (auto simp: render_def)
  show ?thesis
    using submit_result(1,2) [OF s] assms(1) True
    by (auto simp: one_callback_def resized_def split: option.splits)
qed

lemma loop_body_one_callback:
  assumes "one_callback st" "loop_body cfg env st = Some (Inr (fl, st'))"
  shows "one_callback st'"
proof (rule loop_body_invariant [where Q = one_callback, OF _ _ _ _ _ _ assms(2)])
  show "one_callback st1" if "render cfg env st = Inr st1" for st1
    using assms(1) that by (rule render_one_callback)
  show "one_callback s'" if "one_callback s" "dispatch_event ev s = Inr s'" for ev s s'
    using dispatch_event_one_callback [OF that(1), of ev] that(2) by auto
qed (simp_all add: one_callback_def)

lemma callback_requests_append:
  "callback_requests (xs @ ys) = callback_requests xs @ callback_requests ys"
  by (induction xs rule: callback_requests.induct) simp_all

lemma callback_requests_filter:
  "callback_requests (filter render_action tr) = callback_requests tr"
  by (induction tr rule: callback_requests.induct) simp_all

lemma submissions_append: "submissions (xs @ ys) = submissions xs + submissions ys"
  by (simp add: submissions_def)

lemma submissions_filter: "submissions (filter render_action tr) = submissions tr"
proof -
  have "(\<lambda>a. render_action a \<and> a = Act_swap_buffers) = (\<lambda>a. a = Act_swap_buffers)"
    by auto
  then show ?thesis by (simp add: submissions_def)
qed

lemma submit_actions_render [simp]:
  "filter render_action (submit_actions cfg st) = submit_actions cfg st"
  by (simp add: submit_actions_def resize_actions_def)

lemma submit_actions_submissions [simp]: "submissions (submit_actions cfg st) = 1"
  by (simp add: submit_actions_def resize_actions_def submissions_def)

lemma submit_actions_requests [simp]:
  "callback_requests (submit_actions cfg st)
     = (if unsynchronized cfg then [] else [next_callback st])"
  by (simp add: submit_actions_def resize_actions_def callback_requests_append)

text \<open>What one iteration does to the frame counter and to the render calls of the trace.\<close>

lemma render_counts:
  assumes "render cfg env st = Inr st1"
  shows "frame_num st1 = frame_num st
            + (if unsynchronized cfg \<or> frame (wl st) = None then 1 else 0)"
    and "trace st1 = trace st
            @ (if unsynchronized cfg \<or> frame (wl st) = None then submit_actions cfg st else [])"
proof -
  show "frame_num st1 = frame_num st
            + (if unsynchronized cfg \<or> frame (wl st) = None then 1 else 0)"
    using assms submit_result(4) [of cfg env st st1] by (auto simp: render_def split: if_splits)
  show "trace st1 = trace st
            @ (if unsynchronized cfg \<or> frame (wl st) = None then submit_actions cfg st else [])"
    using assms submit_result(5) [of cfg env st st1] by (auto simp: render_def split: if_splits)
qed

lemma loop_body_counts:
  assumes "loop_body cfg env st = Some (Inr (fl, st'))"
  shows "frame_num st' = frame_num st
            + (if unsynchronized cfg \<or> frame (wl st) = None then 1 else 0)
    \<and> filter render_action (trace st') = filter render_action (trace st)
            @ (if unsynchronized cfg \<or> frame (wl st) = None then submit_actions cfg st else [])"
    (is "?Q st'")
proof (rule loop_body_invariant [where Q = ?Q, OF _ _ _ _ _ _ assms])
  show "?Q st1" if "render cfg env st = Inr st1" for st1
    using render_counts [OF that] by simp
  show "?Q s'" if "?Q s" "dispatch_event ev s = Inr s'" for ev s s'
    using that(1) dispatch_event_cases [OF that(2)] by simp
  show "?Q (emit [a] s)" if "?Q s" "a \<in> quiet_actions" for a s
    using that by (auto simp: quiet_actions_def)
  show "?Q (emit (snd (reap (sync_kernel env) 1 (trk s) []))
              (s\<lparr>trk := fst (reap (sync_kernel env) 1 (trk s) [])\<rparr>))" if "?Q s" for s
    using that by (simp add: reap_no_render_action)
qed simp_all

lemma loop_body_no_callback:
  assumes "unsynchronized cfg" "frame (wl st) = None \<and> callbacks st = []"
    "loop_body cfg env st = Some (Inr (fl, st'))"
  shows "frame (wl st') = None \<and> callbacks st' = []" (is "?Q st'")
proof (rule loop_body_invariant [where Q = ?Q, OF _ _ _ _ _ _ assms(3)])
  show "?Q st1" if "render cfg env st = Inr st1" for st1
  proof -
    have "submit cfg env st = Inr st1" using that assms(1) by (simp add: render_def)
    from submit_result(1,2) [OF this] show ?thesis
      using assms(1,2) by (simp add: resized_def)
  qed
  show "?Q s'" if "?Q s" "dispatch_event ev s = Inr s'" for ev s s'
    using that
    by (cases ev)
       (auto simp: dispatch_event_def xdg_base_configure_def toplevel_configure_def
             toplevel_close_def)
qed simp_all

text \<open>
  C5.  In synchronized mode at most one frame callback is outstanding at any time.  The
  state at loop entry has none; every iteration of the loop, and every state at the head of
  the loop, keeps ``the callbacks that exist are exactly the one in the slot''.  A submission
  (the slot is empty) requests exactly one callback and puts it into the slot; while the
  slot is occupied the render block does nothing at all (no render, no new callback); and an
  event clears the slot exactly when it is the \<^verbatim>\<open>done\<close> event of the callback in the slot.
\<close>

theorem synchronized_one_callback:
  assumes sync: "\<not> unsynchronized cfg"
  shows "(loop_entry fds_ok fences_ok display_fd w = Inr st0 \<longrightarrow> one_callback st0)
    \<and> (one_callback st0 \<and> reach cfg envs st0 k st1
          \<longrightarrow> one_callback st1 \<and> length (callbacks st1) \<le> 1)
    \<and> (one_callback st \<and> loop_body cfg env st = Some (Inr (fl, st2))
          \<longrightarrow> one_callback st2 \<and> length (callbacks st2) \<le> 1)
    \<and> (one_callback st \<and> frame (wl st) = None \<and> render cfg env st = Inr st3
          \<longrightarrow> frame (wl st3) = Some (next_callback st)
              \<and> callbacks st3 = [next_callback st]
              \<and> callback_requests (trace st3)
                  = callback_requests (trace st) @ [next_callback st]
              \<and> frame_num st3 = frame_num st + 1)
    \<and> (frame (wl st) \<noteq> None \<longrightarrow> render cfg env st = Inr st)
    \<and> (one_callback st \<longrightarrow>
          (\<exists>st4. dispatch_event ev st = Inr st4 \<and> one_callback st4
             \<and> frame (wl st4) = (if \<exists>c. ev = Ev_frame_done c \<and> frame (wl st) = Some c
                                   then None else frame (wl st))))"
proof (intro conjI impI)
  assume "loop_entry fds_ok fences_ok display_fd w = Inr st0"
  then show "one_callback st0"
    by (auto simp: loop_entry_def one_callback_def split: if_splits)
next
  have le: "one_callback s \<Longrightarrow> length (callbacks s) \<le> 1" for s
    by (simp add: one_callback_def split: option.splits)
  {
    assume a: "one_callback st0 \<and> reach cfg envs st0 k st1"
    have "one_callback st1"
    proof (rule reach_invariant [where P = one_callback])
      show "reach cfg envs st0 k st1" using a by simp
      show "one_callback st0" using a by simp
      show "one_callback s'"
        if "one_callback s" "loop_body cfg (envs j) s = Some (Inr (Continue, s'))" for j s s'
        using that by (rule loop_body_one_callback)
    qed
    then show "one_callback st1" "length (callbacks st1) \<le> 1" using le by blast+
  }
  {
    assume a: "one_callback st \<and> loop_body cfg env st = Some (Inr (fl, st2))"
    then have "one_callback st2" by (blast intro: loop_body_one_callback)
    then show "one_callback st2" "length (callbacks st2) \<le> 1" using le by blast+
  }
  {
    assume a: "one_callback st \<and> frame (wl st) = None \<and> render cfg env st = Inr st3"
    then have s: "submit cfg env st = Inr st3" by (auto simp: render_def)
    have c: "callbacks st = []" using a by (simp add: one_callback_def)
    show "frame (wl st3) = Some (next_callback st)"
      using submit_result(1) [OF s] sync by simp
    show "callbacks st3 = [next_callback st]"
      using submit_result(2) [OF s] sync c by simp
    show "callback_requests (trace st3) = callback_requests (trace st) @ [next_callback st]"
      using submit_result(5) [OF s] sync by (simp add: callback_requests_append)
    show "frame_num st3 = frame_num st + 1"
      using submit_result(4) [OF s] .
  }
  {
    assume "frame (wl st) \<noteq> None"
    then show "render cfg env st = Inr st" using sync by (auto simp: render_def)
  }
  {
    assume "one_callback st"
    then show "\<exists>st4. dispatch_event ev st = Inr st4 \<and> one_callback st4
             \<and> frame (wl st4) = (if \<exists>c. ev = Ev_frame_done c \<and> frame (wl st) = Some c
                                   then None else frame (wl st))"
      by (rule dispatch_event_one_callback)
  }
qed

theorem synchronized_one_callback_witness:
  "\<exists>st. render sync_config idle_env entry_state = Inr st
      \<and> frame (wl st) = Some 0 \<and> callbacks st = [0] \<and> frame_num st = 1
      \<and> render sync_config idle_env st = Inr st
      \<and> (\<exists>st'. dispatch_event (Ev_frame_done 0) st = Inr st' \<and> frame (wl st') = None
             \<and> callbacks st' = [])"
proof -
  have sync: "\<not> unsynchronized sync_config" by (simp add: sync_config_def)
  have inv0: "one_callback entry_state" and fr0: "frame (wl entry_state) = None"
    and nc: "next_callback entry_state = 0" and fn: "frame_num entry_state = 0"
    by (simp_all add: one_callback_def entry_state_def)
  have "len (trk entry_state) \<noteq> cap (trk entry_state)"
    by (simp add: entry_state_def entry_tracker_def)
  then obtain st where "submit sync_config idle_env entry_state = Inr st"
    using submit_returns [of sync_config entry_state idle_env] by blast
  then have r: "render sync_config idle_env entry_state = Inr st"
    using fr0 by (simp add: render_def)
  note th = synchronized_one_callback [OF sync]
  from th [where st = entry_state and env = idle_env and ?st3.0 = st] inv0 fr0 r nc fn
  have a: "frame (wl st) = Some 0" "callbacks st = [0]" "frame_num st = 1"
    by simp_all
  have inv1: "one_callback st" using a by (simp add: one_callback_def)
  from th [where st = st and env = idle_env] a
  have b: "render sync_config idle_env st = Inr st" by simp
  note th6 = th [THEN conjunct2, THEN conjunct2, THEN conjunct2, THEN conjunct2,
                 THEN conjunct2, rule_format]
  from th6 [OF inv1, of "Ev_frame_done 0"] a
  obtain st' where c: "dispatch_event (Ev_frame_done 0) st = Inr st'" "one_callback st'"
      "frame (wl st') = None"
    by auto
  have "callbacks st' = []" using c(2,3) by (simp add: one_callback_def)
  then show ?thesis using r a b c by blast
qed

text \<open>
  C6.  In unsynchronized mode the gate of the render block is open in every state, whatever
  the tracker holds: the block is the submission itself.  A submission that returns has
  drawn and presented one frame, has advanced the frame counter by one and has requested no
  frame callback; it returns unless growing the tracker fails.  Hence at the head of
  iteration \<open>k\<close> exactly \<open>k\<close> frames have been submitted, the callback slot is empty and no
  callback was ever requested.
\<close>

theorem unsynchronized_always_submits:
  assumes unsync: "unsynchronized cfg"
  shows "render cfg env st = submit cfg env st
    \<and> (render cfg env st = Inr st1
          \<longrightarrow> frame_num st1 = frame_num st + 1
              \<and> frame (wl st1) = frame (wl st) \<and> callbacks st1 = callbacks st
              \<and> submissions (trace st1) = submissions (trace st) + 1
              \<and> callback_requests (trace st1) = callback_requests (trace st))
    \<and> (\<not> egl_has_fences cfg \<or> len (trk st) \<noteq> cap (trk st) \<or> allocs_ok (track_answers env)
          \<longrightarrow> (\<exists>st2. render cfg env st = Inr st2))
    \<and> (frame (wl st0) = None \<and> callbacks st0 = [] \<and> reach cfg envs st0 k st3
          \<longrightarrow> frame (wl st3) = None \<and> callbacks st3 = []
              \<and> frame_num st3 = frame_num st0 + int k
              \<and> submissions (trace st3) = submissions (trace st0) + k
              \<and> callback_requests (trace st3) = callback_requests (trace st0))"
proof (intro conjI impI)
  show r: "render cfg env st = submit cfg env st"
    using unsync by (simp add: render_def)
  {
    assume "render cfg env st = Inr st1"
    then have s: "submit cfg env st = Inr st1" using r by simp
    show "frame_num st1 = frame_num st + 1" using submit_result(4) [OF s] .
    show "frame (wl st1) = frame (wl st)"
      using submit_result(1) [OF s] unsync by (simp add: resized_def)
    show "callbacks st1 = callbacks st" using submit_result(2) [OF s] unsync by simp
    show "submissions (trace st1) = submissions (trace st) + 1"
      using submit_result(5) [OF s] by (simp add: submissions_append)
    show "callback_requests (trace st1) = callback_requests (trace st)"
      using submit_result(5) [OF s] unsync by (simp add: callback_requests_append)
  }
  {
    assume a: "\<not> egl_has_fences cfg \<or> len (trk st) \<noteq> cap (trk st)
               \<or> allocs_ok (track_answers env)"
    then show "\<exists>st2. render cfg env st = Inr st2"
      unfolding r by (rule submit_returns)
  }
  {
    assume a: "frame (wl st0) = None \<and> callbacks st0 = [] \<and> reach cfg envs st0 k st3"
    then have re: "reach cfg envs st0 k st3" by simp
    have "(frame (wl st3) = None \<and> callbacks st3 = [])
        \<and> frame_num st3 = frame_num st0 + int k
        \<and> filter render_action (trace st3) = filter render_action (trace st0) @ xs
           \<longrightarrow> True" for xs
      by simp
    from re a have "(frame (wl st3) = None \<and> callbacks st3 = [])
        \<and> frame_num st3 = frame_num st0 + int k
        \<and> submissions (trace st3) = submissions (trace st0) + k
        \<and> callback_requests (trace st3) = callback_requests (trace st0)"
    proof (induction rule: reach.induct)
      case reach_entry
      then show ?case by simp
    next
      case (reach_iteration j s s')
      then have ih: "frame (wl s) = None \<and> callbacks s = []"
          "frame_num s = frame_num st0 + int j"
          "submissions (trace s) = submissions (trace st0) + j"
          "callback_requests (trace s) = callback_requests (trace st0)"
        by simp_all
      note b = reach_iteration.hyps(4)
      have c: "frame (wl s') = None \<and> callbacks s' = []"
        using unsync ih(1) b by (rule loop_body_no_callback)
      note d = loop_body_counts [OF b]
      have e: "filter render_action (trace s')
                 = filter render_action (trace s) @ submit_actions cfg s"
        using d unsync by simp
      have "submissions (trace s') = submissions (trace s) + 1"
        using arg_cong [OF e, of submissions]
        by (simp add: submissions_filter submissions_append)
      moreover have "callback_requests (trace s') = callback_requests (trace s)"
        using arg_cong [OF e, of callback_requests] unsync
        by (simp add: callback_requests_filter callback_requests_append)
      ultimately show ?case
        using c d ih unsync by simp
    qed
    then show "frame (wl st3) = None" "callbacks st3 = []"
      "frame_num st3 = frame_num st0 + int k"
      "submissions (trace st3) = submissions (trace st0) + k"
      "callback_requests (trace st3) = callback_requests (trace st0)"
      by simp_all
  }
qed

theorem unsynchronized_always_submits_witness:
  "\<exists>st. render unsync_config idle_env entry_state = Inr st
      \<and> frame_num st = 1 \<and> frame (wl st) = None \<and> callbacks st = []
      \<and> submissions (trace st) = 1 \<and> callback_requests (trace st) = []"
proof -
  have unsync: "unsynchronized unsync_config"
    by (simp add: unsync_config_def)
  have ok: "\<not> egl_has_fences unsync_config
            \<or> len (trk entry_state) \<noteq> cap (trk entry_state)
            \<or> allocs_ok (track_answers idle_env)"
    by (simp add: entry_state_def entry_tracker_def)
  note th = unsynchronized_always_submits [OF unsync]
  note th2 = th [THEN conjunct2, THEN conjunct1, rule_format]
  note th3 = th [THEN conjunct2, THEN conjunct2, THEN conjunct1, rule_format]
  from th3 [OF ok] obtain st where r: "render unsync_config idle_env entry_state = Inr st"
    by blast
  from th2 [OF r]
  have "frame_num st = frame_num entry_state + 1" "frame (wl st) = frame (wl entry_state)"
      "callbacks st = callbacks entry_state"
      "submissions (trace st) = submissions (trace entry_state) + 1"
      "callback_requests (trace st) = callback_requests (trace entry_state)"
    by blast+
  then have "frame_num st = 1" "frame (wl st) = None" "callbacks st = []"
      "submissions (trace st) = 1" "callback_requests (trace st) = []"
    by (simp_all add: entry_state_def submissions_def)
  then show ?thesis
    using r by blast
qed

section \<open>The resize block\<close>








section \<open>Dispatching never faults while the slot holds the callback\<close>

lemma dispatch_events_total:
  "one_callback st \<Longrightarrow> \<exists>st'. dispatch_events evs st = Inr st' \<and> one_callback st'"
proof (induction evs arbitrary: st)
  case Nil
  then show ?case by simp
next
  case (Cons ev evs)
  from dispatch_event_one_callback [OF Cons.prems, of ev]
  obtain st1 where "dispatch_event ev st = Inr st1" "one_callback st1" by blast
  then show ?case using Cons.IH [of st1] by simp
qed

lemma dispatch_pending_total:
  assumes "one_callback st"
  shows "\<exists>st'. dispatch_pending evs st = Inr st' \<and> one_callback st'"
proof -
  have "one_callback (emit [Act_dispatch_pending] st)"
    using assms by (simp add: one_callback_def)
  then show ?thesis
    unfolding dispatch_pending_def by (rule dispatch_events_total)
qed

section \<open>Fatal and transient transport conditions\<close>





section \<open>The retry loops\<close>

lemma dispatch_event_trace:
  assumes "dispatch_event ev st = Inr st'"
  shows "\<exists>acts. trace st' = trace st @ acts
           \<and> set acts \<subseteq> range Act_pong \<union> range Act_callback_destroy"
  using assms
  by (cases ev)
     (auto simp: dispatch_event_def frame_done_def split: if_splits option.splits)

lemma dispatch_pending_count:
  assumes "dispatch_pending evs st = Inr st'"
  shows "count_list (trace st') Act_prepare_read = count_list (trace st) Act_prepare_read"
    and "count_list (trace st') Act_dispatch_pending
           = count_list (trace st) Act_dispatch_pending + 1"
proof -
  let ?P = "\<lambda>s. count_list (trace s) Act_prepare_read = count_list (trace st) Act_prepare_read
               \<and> count_list (trace s) Act_dispatch_pending
                   = count_list (trace st) Act_dispatch_pending + 1"
  have "?P st'"
  proof (rule dispatch_events_invariant [where P = ?P])
    show "dispatch_events evs (emit [Act_dispatch_pending] st) = Inr st'"
      using assms by (simp add: dispatch_pending_def)
    show "?P (emit [Act_dispatch_pending] st)" by simp
    show "?P s'" if "?P s" "dispatch_event ev s = Inr s'" for ev s s'
    proof -
      from dispatch_event_trace [OF that(2)]
      obtain acts where a: "trace s' = trace s @ acts"
          "set acts \<subseteq> range Act_pong \<union> range Act_callback_destroy"
        by blast
      have "count_list acts Act_prepare_read = 0" "count_list acts Act_dispatch_pending = 0"
        using a(2) by (auto simp: count_list_0_iff)
      then show ?thesis using that(1) a(1) by simp
    qed
  qed
  then show "count_list (trace st') Act_prepare_read = count_list (trace st) Act_prepare_read"
    and "count_list (trace st') Act_dispatch_pending
           = count_list (trace st) Act_dispatch_pending + 1"
    by simp_all
qed

lemma prepare_read_loop_ends:
  assumes "\<forall>j<n. retry (prepare_read_answers env (k + j))"
    and "\<not> retry (prepare_read_answers env (k + n))"
  shows "\<exists>r. prepare_read_loop env k st = Some r
           \<and> (one_callback st \<longrightarrow>
                (\<exists>st'. r = Inr st' \<and> one_callback st'
                   \<and> count_list (trace st') Act_prepare_read
                       = count_list (trace st) Act_prepare_read + n + 1
                   \<and> count_list (trace st') Act_dispatch_pending
                       = count_list (trace st) Act_dispatch_pending + n))"
  using assms
proof (induction n arbitrary: k st)
  case 0
  then have "\<not> retry (prepare_read_answers env k)" by simp
  then have "prepare_read_loop env k st = Some (Inr (emit [Act_prepare_read] st))"
    by (subst prepare_read_loop.simps) (auto simp: retry_def split: prod.splits)
  then show ?case by (simp add: one_callback_def)
next
  case (Suc n)
  have r0: "retry (prepare_read_answers env k)"
    using Suc.prems(1) [rule_format, of 0] by simp
  have later: "\<forall>j<n. retry (prepare_read_answers env (Suc k + j))"
    using Suc.prems(1) by (auto dest: spec [of _ "Suc _"])
  have stop: "\<not> retry (prepare_read_answers env (Suc k + n))"
    using Suc.prems(2) by simp
  let ?s = "emit [Act_prepare_read] st"
  show ?case
  proof (cases "dispatch_pending (pending_events env k) ?s")
    case (Inl f)
    then have run: "prepare_read_loop env k st = Some (Inl f)"
      using r0 by (subst prepare_read_loop.simps) (auto simp: retry_def split: prod.splits)
    have "\<not> one_callback st"
    proof
      assume "one_callback st"
      then have "one_callback ?s" by (simp add: one_callback_def)
      from dispatch_pending_total [OF this, of "pending_events env k"] Inl
      show False by simp
    qed
    then show ?thesis using run by simp
  next
    case (Inr s1)
    then have run: "prepare_read_loop env k st = prepare_read_loop env (Suc k) s1"
      using r0 by (subst prepare_read_loop.simps) (auto simp: retry_def split: prod.splits)
    from Suc.IH [OF later stop, of s1]
    obtain r where r: "prepare_read_loop env (Suc k) s1 = Some r"
      and rest: "one_callback s1 \<longrightarrow>
                (\<exists>st'. r = Inr st' \<and> one_callback st'
                   \<and> count_list (trace st') Act_prepare_read
                       = count_list (trace s1) Act_prepare_read + n + 1
                   \<and> count_list (trace st') Act_dispatch_pending
                       = count_list (trace s1) Act_dispatch_pending + n)"
      by blast
    note cnt = dispatch_pending_count [OF Inr]
    have inv: "one_callback s1" if "one_callback st"
    proof -
      from that have "one_callback ?s" by (simp add: one_callback_def)
      from dispatch_pending_total [OF this, of "pending_events env k"] Inr
      show ?thesis by simp
    qed
    show ?thesis
      unfolding run using r rest inv cnt by auto
  qed
qed

lemma flush_loop_ends:
  assumes "\<forall>j<n. 0 < fst (flush_answers env (k + j))"
    and "\<not> 0 < fst (flush_answers env (k + n))"
  shows "flush_loop env k st
           = Some (flush_answers env (k + n), emit (replicate (Suc n) Act_flush) st)"
  using assms
proof (induction n arbitrary: k st)
  case 0
  then show ?case
    by (subst flush_loop.simps) (auto split: prod.splits)
next
  case (Suc n)
  have r0: "0 < fst (flush_answers env k)"
    using Suc.prems(1) [rule_format, of 0] by simp
  have later: "\<forall>j<n. 0 < fst (flush_answers env (Suc k + j))"
    using Suc.prems(1) by (auto dest: spec [of _ "Suc _"])
  have stop: "\<not> 0 < fst (flush_answers env (Suc k + n))"
    using Suc.prems(2) by simp
  have "flush_loop env k st = flush_loop env (Suc k) (emit [Act_flush] st)"
    using r0 by (subst flush_loop.simps) (auto split: prod.splits)
  also have "\<dots> = Some (flush_answers env (Suc k + n),
                        emit (replicate (Suc n) Act_flush) (emit [Act_flush] st))"
    by (rule Suc.IH [OF later stop])
  finally show ?case by (simp add: replicate_append_same)
qed

lemma prepare_read_loop_diverges:
  assumes "\<And>j. retry (prepare_read_answers env j)" and "\<And>j. pending_events env j = []"
  shows "prepare_read_loop env k st = None"
proof -
  have "e = env \<longrightarrow> False" if "prepare_read_loop e k st = Some r" for e r
    using that
  proof (induction e k st r rule: prepare_read_loop.raw_induct [rotated -1, consumes 1])
    case (1 rec e k st r)
    show ?case
    proof
      assume e: "e = env"
      have "dispatch_pending (pending_events env k) (emit [Act_prepare_read] st)
              = Inr (emit [Act_prepare_read, Act_dispatch_pending] st)"
        by (simp add: assms(2) dispatch_pending_def)
      then have "rec env (Suc k) (emit [Act_prepare_read, Act_dispatch_pending] st) = Some r"
        using "1.hyps" assms(1) [of k] e by (auto simp: retry_def split: prod.splits)
      then show False using "1.IH" e by blast
    qed
  qed
  then show ?thesis
    by (cases "prepare_read_loop env k st") auto
qed

lemma flush_loop_diverges:
  assumes "\<And>j. 0 < fst (flush_answers env j)"
  shows "flush_loop env k st = None"
proof -
  have "e = env \<longrightarrow> False" if "flush_loop e k st = Some r" for e r
    using that
  proof (induction e k st r rule: flush_loop.raw_induct [rotated -1, consumes 1])
    case (1 rec e k st r)
    show ?case
    proof
      assume e: "e = env"
      have "rec env (Suc k) (emit [Act_flush] st) = Some r"
        using "1.hyps" assms [of k] e by (auto split: prod.splits)
      then show False using "1.IH" e by blast
    qed
  qed
  then show ?thesis
    by (cases "flush_loop env k st") auto
qed

text \<open>
  C8, as the code has it.  Neither retry loop has a bound of its own: each runs as long as
  the connection answers so.  When \<^verbatim>\<open>wl_display_prepare_read\<close> fails with \<^verbatim>\<open>EAGAIN\<close> exactly \<open>n\<close>
  times before it answers otherwise, the read-intent loop ends after \<open>n + 1\<close> attempts and
  \<open>n\<close> dispatches; when \<^verbatim>\<open>wl_display_flush\<close> reports bytes written exactly \<open>n\<close> times before it
  returns 0 or fails, the flush loop ends after \<open>n + 1\<close> calls, with that last answer.
\<close>

theorem retries_end_with_the_connection:
  "((\<forall>j<n. retry (prepare_read_answers env (k + j)))
      \<and> \<not> retry (prepare_read_answers env (k + n)) \<longrightarrow>
      (\<exists>r. prepare_read_loop env k st = Some r
         \<and> (one_callback st \<longrightarrow>
              (\<exists>st'. r = Inr st' \<and> one_callback st'
                 \<and> count_list (trace st') Act_prepare_read
                     = count_list (trace st) Act_prepare_read + n + 1
                 \<and> count_list (trace st') Act_dispatch_pending
                     = count_list (trace st) Act_dispatch_pending + n))))
   \<and> ((\<forall>j<m. 0 < fst (flush_answers env (k + j)))
        \<and> \<not> 0 < fst (flush_answers env (k + m)) \<longrightarrow>
        flush_loop env k st
          = Some (flush_answers env (k + m), emit (replicate (Suc m) Act_flush) st))"
  using prepare_read_loop_ends [of n env k st] flush_loop_ends [of m env k st]
  by blast

theorem retries_end_with_the_connection_witness:
  "(\<exists>st'. prepare_read_loop twice_env 0 entry_state = Some (Inr st')
       \<and> count_list (trace st') Act_prepare_read = 3
       \<and> count_list (trace st') Act_dispatch_pending = 2)
   \<and> flush_loop twice_env 0 entry_state
       = Some ((0, 0), emit [Act_flush, Act_flush, Act_flush] entry_state)"
proof -
  have p: "(\<forall>j<2. retry (prepare_read_answers twice_env (0 + j)))
           \<and> \<not> retry (prepare_read_answers twice_env (0 + 2))"
    by (simp add: twice_env_def retry_def EAGAIN_def)
  have f: "(\<forall>j<2. 0 < fst (flush_answers twice_env (0 + j)))
           \<and> \<not> 0 < fst (flush_answers twice_env (0 + 2))"
    by (simp add: twice_env_def)
  have inv: "one_callback entry_state" and tr: "trace entry_state = []"
    by (simp_all add: one_callback_def entry_state_def)
  note th = retries_end_with_the_connection
              [where env = twice_env and k = 0 and st = entry_state and n = 2 and m = 2]
  from th [THEN conjunct1, rule_format, OF p] inv
  obtain st' where a: "prepare_read_loop twice_env 0 entry_state = Some (Inr st')"
      "count_list (trace st') Act_prepare_read
         = count_list (trace entry_state) Act_prepare_read + 2 + 1"
      "count_list (trace st') Act_dispatch_pending
         = count_list (trace entry_state) Act_dispatch_pending + 2"
    by blast
  from th [THEN conjunct2, rule_format, OF f]
  have b: "flush_loop twice_env 0 entry_state
       = Some ((0, 0), emit [Act_flush, Act_flush, Act_flush] entry_state)"
    by (simp add: twice_env_def numeral_3_eq_3)
  show ?thesis
    using a b by (simp add: tr)
qed

text \<open>
  The loops are not bounded: on a connection that keeps answering \<^verbatim>\<open>EAGAIN\<close> the read-intent
  loop never ends, and on one whose flush keeps reporting bytes written the flush loop never
  ends.
\<close>

theorem retries_unbounded:
  "prepare_read_loop stuck_env 0 entry_state = None
   \<and> flush_loop busy_env 0 entry_state = None"
proof
  show "prepare_read_loop stuck_env 0 entry_state = None"
    by (rule prepare_read_loop_diverges)
       (simp_all add: stuck_env_def idle_env_def retry_def)
  show "flush_loop busy_env 0 entry_state = None"
    by (rule flush_loop_diverges) (simp add: busy_env_def)
qed

section \<open>The tracker through the loop\<close>







section \<open>Frame numbers in the tracker and in the latency lines\<close>



lemma latency_samples_no_printf:
  "(\<And>n d. Act_printf_frame n d \<notin> set acts) \<Longrightarrow> latency_samples acts = []"
  by (induction acts rule: latency_samples.induct) auto

lemma latency_samples_submit_actions [simp]: "latency_samples (submit_actions cfg st) = []"
  by (rule latency_samples_no_printf) (auto simp: submit_actions_def resize_actions_def)









section \<open>An unsynchronized run up to the maximum frame count\<close>






lemma socket_quiet_emit [simp]: "socket_quiet (emit acts st) = socket_quiet st"
  by (simp add: socket_quiet_def)

lemma socket_quiet_set_events0 [simp]: "socket_quiet (set_events0 f st) = socket_quiet st"
  by (cases "fds (trk st)") (simp_all add: socket_quiet_def set_events0_def)














end
